theory Spec2Isabelle
  imports Main
begin

section \<open>Data model of the job binding (inspectify-app/src/lib/io.ts)\<close>

text \<open>
  The binding is a chain of Svelte stores. Its asynchronous functions are modelled as
  run records that move from one suspension point to the next; every timer, response and
  registry notification is an event of a deterministic step function. Time is a counter
  of time units advanced by the event \<open>Tick\<close>.

  The store library (svelte/store) and the modules \<open>./api\<close> and \<open>./events\<close> are not
  part of the sources. What the model takes from them is written at the place of use.
\<close>

type_synonym JobId = nat

text \<open>\<^verbatim>\<open>type OutputState = 'None' | 'Stale' | 'Current'\<close>\<close>

datatype OutputState = NoneState | Stale | Current

text \<open>
  \<^verbatim>\<open>ce_core.ValidationResult | { type: 'Failure'; message: string }\<close>: the four generated
  variants and the locally built \<open>Failure\<close>.
\<close>

datatype ValidationResult =
    CorrectTerminated
  | CorrectNonTerminated nat
  | Mismatch string
  | TimeOut
  | Failure string

text \<open>
  The fields of a job record that io.ts reads: \<open>state\<close>, \<open>stdout\<close> and the optional
  \<open>analysis_data\<close> with its optional members. An absent member is \<open>None\<close>.
\<close>

record 'o AnalysisData =
  ad_output :: "'o option"
  ad_reference_output :: "'o option"
  ad_validation :: "ValidationResult option"

record 'o Job =
  state :: string
  stdout :: string
  analysis_data :: "'o AnalysisData option"

text \<open>
  \<^verbatim>\<open>type Results<A>\<close>. A field that an object literal leaves out (\<open>undefined\<close>) and a field
  set to \<open>null\<close> are both \<open>None\<close>. \<open>job\<close> is the per-job store \<open>$jobs[$jobId]\<close>, named
  by its key.
\<close>

record ('i, 'o) Results =
  input :: "'i option"
  outputState :: OutputState
  output' :: "'o option"
  referenceOutput :: "'o option"
  validation :: "ValidationResult option"
  job :: "JobId option"

text \<open>
  The value of \<open>jobIdAndMetaDerived\<close>: \<^verbatim>\<open>{ jobId, input: $input, meta: meta.json }\<close>.
  \<open>generation\<close> is a ghost field, read by no operation of the code: the index of the
  dispatcher run that published the value.
\<close>

record ('i, 'm) JobIdAndMeta =
  jobId :: JobId
  pinned_input :: 'i
  meta_json :: 'm
  generation :: nat

text \<open>
  One invocation of the callback of \<open>jobIdAndMetaDerived\<close> (lines 38-69) that got as far as
  \<open>run()\<close>: its captured \<open>$input\<close>, its \<open>stop\<close> flag and the point where \<open>run\<close> is
  suspended. The phase fixes what \<open>cancel\<close> is: a no-op while \<open>Debouncing\<close>, the abort of
  the request while \<open>Requesting\<close>, \<open>api.jobsCancel(jobId)\<close> once \<open>Published\<close>.
\<close>

datatype DispatchPhase =
    Debouncing nat
  | Requesting
  | Published JobId
  | Ended

record 'i DispatchRun =
  run_input :: 'i
  stop :: bool
  phase :: DispatchPhase

text \<open>
  One invocation of the callback of \<open>results\<close> (lines 86-139) that got as far as \<open>run()\<close>.
  \<open>Polling d\<close>: suspended in the loop on a timer due at \<open>d\<close>, \<open>cancel\<close> still a no-op.
  \<open>Subscribed\<close>: \<open>cancel\<close> is the unsubscribe function of the job store.
  \<open>Threw\<close>: the loop was left with \<open>job\<close> undefined and \<open>job.subscribe\<close> raised a
  TypeError, which rejects the promise of \<open>run\<close>.
\<close>

datatype ProjectPhase =
    Polling nat
  | Subscribed
  | Unsubscribed
  | Threw

record 'i ProjectRun =
  p_jobId :: JobId
  p_cachedInput :: 'i
  p_generation :: nat
  p_stop :: bool
  p_phase :: ProjectPhase

text \<open>
  The state of one binding instance with the stores it reads.
  \<open>truthy\<close> is JavaScript's truthiness of an Input value, fixed for the binding: the Input
  types are declared in \<open>./api\<close>, not among the sources, so it is a parameter.
  \<open>compilationStatusStore\<close> holds \<open>$compilationStatus?.state\<close> (\<open>None\<close> for a null
  status). \<open>jobsStore\<close> is the shared registry object: every \<open>$jobs\<close> a callback captured
  is this one object. \<open>dispatch_cleanup\<close> and \<open>project_cleanup\<close> name the run whose cleanup
  function the derived store currently holds (\<open>None\<close>: the callback returned nothing).
  \<open>submissions\<close>, \<open>cancels\<close> and \<open>emitted\<close> log the calls of \<open>api.analysis\<close>, of
  \<open>api.jobsCancel\<close> and of \<open>set\<close> on the results store, the last with the ghost
  generation of the emitting run.
\<close>

record ('i, 'm, 'o) Binding =
  now :: nat
  browser :: bool
  truthy :: "'i \<Rightarrow> bool"
  input_store :: 'i
  compilationStatusStore :: "string option"
  jobsStore :: "JobId \<rightharpoonup> 'o Job"
  dispatch_runs :: "'i DispatchRun list"
  dispatch_cleanup :: "nat option"
  jobIdAndMetaDerived :: "('i, 'm) JobIdAndMeta option"
  submissions :: "'i list"
  cancels :: "JobId list"
  project_runs :: "'i ProjectRun list"
  project_cleanup :: "nat option"
  results :: "('i, 'o) Results"
  emitted :: "(nat \<times> ('i, 'o) Results) list"

section \<open>The derived projections\<close>

text \<open>\<^verbatim>\<open>derived(jobIdAndMetaDerived, ($jobIdAndMeta) => $jobIdAndMeta?.jobId ?? null)\<close>\<close>

definition jobIdDerived :: "('i, 'm, 'o) Binding \<Rightarrow> JobId option" where
  "jobIdDerived s = map_option jobId (jobIdAndMetaDerived s)"

text \<open>\<^verbatim>\<open>derived(jobIdAndMetaDerived, ($jobIdAndMeta) => $jobIdAndMeta?.input)\<close>\<close>

definition cachedInput :: "('i, 'm, 'o) Binding \<Rightarrow> 'i option" where
  "cachedInput s = map_option pinned_input (jobIdAndMetaDerived s)"

text \<open>\<^verbatim>\<open>derived(jobIdAndMetaDerived, ($jobIdAndMeta) => $jobIdAndMeta?.meta)\<close>\<close>

definition meta :: "('i, 'm, 'o) Binding \<Rightarrow> 'm option" where
  "meta s = map_option meta_json (jobIdAndMetaDerived s)"

section \<open>The Debounced Dispatcher (lines 36-71)\<close>

text \<open>The quiet period of \<^verbatim>\<open>setTimeout(resolve, 200)\<close>, in both stages.\<close>

definition quiet_period :: nat where
  "quiet_period = 200"

text \<open>
  The cleanup \<^verbatim>\<open>() => { stop = true; cancel(); }\<close> of one run.
  Modelled from the spec: the submit request of \<open>./api\<close> (not among the sources) is
  abortable before it resolves; an aborted request rejects its promise, so the run ends
  there.
\<close>

definition cancelled :: "'i DispatchRun \<Rightarrow> 'i DispatchRun" where
  "cancelled r = r\<lparr>stop := True,
     phase := (case phase r of Requesting \<Rightarrow> Ended | p \<Rightarrow> p)\<rparr>"

definition dispatch_stop :: "('i, 'm, 'o) Binding \<Rightarrow> ('i, 'm, 'o) Binding" where
  "dispatch_stop s =
     (case dispatch_cleanup s of
        None \<Rightarrow> s
      | Some g \<Rightarrow>
          if g < length (dispatch_runs s) then
            s\<lparr>dispatch_runs := (dispatch_runs s)[g := cancelled (dispatch_runs s ! g)],
              cancels := cancels s @
                (case phase (dispatch_runs s ! g) of Published j \<Rightarrow> [j] | _ \<Rightarrow> [])\<rparr>
          else s)"

text \<open>
  The callback: the two early returns, then \<open>run()\<close> up to its first \<open>await\<close>, and the
  cleanup function as the result.
\<close>

definition dispatch_callback :: "('i, 'm, 'o) Binding \<Rightarrow> ('i, 'm, 'o) Binding" where
  "dispatch_callback s =
     (if \<not> browser s then s\<lparr>dispatch_cleanup := None\<rparr>
      else if compilationStatusStore s \<noteq> Some ''Succeeded'' then s\<lparr>dispatch_cleanup := None\<rparr>
      else s\<lparr>dispatch_runs := dispatch_runs s @
                [\<lparr>run_input = input_store s, stop = False,
                  phase = Debouncing (now s + quiet_period)\<rparr>],
             dispatch_cleanup := Some (length (dispatch_runs s))\<rparr>)"

text \<open>
  A derived store with a callback of two parameters, when one of its inputs notifies:
  the held cleanup is called, then the callback.
\<close>

definition dispatch_sync :: "('i, 'm, 'o) Binding \<Rightarrow> ('i, 'm, 'o) Binding" where
  "dispatch_sync s = dispatch_callback (dispatch_stop s)"

text \<open>
  The debounce timer of a run fires: \<^verbatim>\<open>if (stop) return;\<close>, else the request is issued and
  \<open>run\<close> waits for \<open>analysisRequest.data\<close>.
\<close>

definition timer_due :: "nat \<Rightarrow> 'i DispatchRun \<Rightarrow> bool" where
  "timer_due t r = (case phase r of Debouncing d \<Rightarrow> d \<le> t | _ \<Rightarrow> False)"

definition timer_fired :: "nat \<Rightarrow> 'i DispatchRun \<Rightarrow> 'i DispatchRun" where
  "timer_fired t r =
     (if timer_due t r then r\<lparr>phase := (if stop r then Ended else Requesting)\<rparr> else r)"

definition dispatch_timers :: "('i, 'm, 'o) Binding \<Rightarrow> ('i, 'm, 'o) Binding" where
  "dispatch_timers s =
     s\<lparr>dispatch_runs := map (timer_fired (now s)) (dispatch_runs s),
       submissions := submissions s @
         map run_input (filter (\<lambda>r. timer_due (now s) r \<and> \<not> stop r) (dispatch_runs s))\<rparr>"

section \<open>The Job Resolver and the Results Projector (lines 84-147)\<close>

text \<open>The placeholder of lines 93-99 and 140-146: it has no \<open>input\<close> field.\<close>

definition placeholder :: "('i, 'o) Results" where
  "placeholder = \<lparr>input = None, outputState = NoneState, output' = None,
     referenceOutput = None, validation = None, job = None\<rparr>"

text \<open>The optional chains \<^verbatim>\<open>$job.analysis_data?.output?.json\<close> and its two siblings.\<close>

definition job_output :: "'o Job \<Rightarrow> 'o option" where
  "job_output j = (case analysis_data j of None \<Rightarrow> None | Some d \<Rightarrow> ad_output d)"

definition job_reference_output :: "'o Job \<Rightarrow> 'o option" where
  "job_reference_output j =
     (case analysis_data j of None \<Rightarrow> None | Some d \<Rightarrow> ad_reference_output d)"

definition job_validation :: "'o Job \<Rightarrow> ValidationResult option" where
  "job_validation j = (case analysis_data j of None \<Rightarrow> None | Some d \<Rightarrow> ad_validation d)"

text \<open>
  The subscriber of lines 107-130 for a run and a record \<open>$job\<close>: the values it passes to
  \<open>set\<close>, none for a state other than \<open>Succeeded\<close> and \<open>Failed\<close>.
\<close>

definition job_subscriber :: "'i ProjectRun \<Rightarrow> 'o Job \<Rightarrow> ('i, 'o) Results list" where
  "job_subscriber r j =
     (if state j = ''Succeeded'' then
        [\<lparr>input = Some (p_cachedInput r), outputState = Current,
          output' = job_output j, referenceOutput = job_reference_output j,
          validation = job_validation j, job = Some (p_jobId r)\<rparr>]
      else if state j = ''Failed'' then
        [\<lparr>input = Some (p_cachedInput r), outputState = Current,
          output' = None, referenceOutput = None,
          validation = Some (Failure (stdout j)), job = Some (p_jobId r)\<rparr>]
      else [])"

text \<open>\<open>set\<close> on the results store: the value is an object, so every call notifies.\<close>

definition emit :: "nat \<Rightarrow> ('i, 'm, 'o) Binding \<Rightarrow> ('i, 'o) Results \<Rightarrow> ('i, 'm, 'o) Binding" where
  "emit g s v = s\<lparr>results := v, emitted := emitted s @ [(g, v)]\<rparr>"

definition emit_all :: "('i, 'm, 'o) Binding \<Rightarrow> (nat \<times> ('i, 'o) Results) list \<Rightarrow> ('i, 'm, 'o) Binding" where
  "emit_all s vs = foldl (\<lambda>s' (g, v). emit g s' v) s vs"

text \<open>The cleanup \<^verbatim>\<open>() => { stop = true; cancel(); }\<close> of a projector run.\<close>

definition unsubscribed :: "'i ProjectRun \<Rightarrow> 'i ProjectRun" where
  "unsubscribed r = r\<lparr>p_stop := True,
     p_phase := (case p_phase r of Subscribed \<Rightarrow> Unsubscribed | p \<Rightarrow> p)\<rparr>"

definition project_stop :: "('i, 'm, 'o) Binding \<Rightarrow> ('i, 'm, 'o) Binding" where
  "project_stop s =
     (case project_cleanup s of
        None \<Rightarrow> s
      | Some k \<Rightarrow>
          if k < length (project_runs s) then
            s\<lparr>project_runs := (project_runs s)[k := unsubscribed (project_runs s ! k)]\<rparr>
          else s)"

text \<open>
  \<open>run()\<close> from the lookup of line 101 to its next suspension, for a run that is not
  stopped: with the record present the loop is skipped, \<open>job.subscribe\<close> calls the
  subscriber at once with the current record; with the record absent the loop body
  looks again and waits on the timer.
\<close>

definition resolve :: "nat \<Rightarrow> (JobId \<rightharpoonup> 'o Job) \<Rightarrow> 'i ProjectRun
    \<Rightarrow> 'i ProjectRun \<times> (nat \<times> ('i, 'o) Results) list" where
  "resolve t jobs r =
     (case jobs (p_jobId r) of
        None \<Rightarrow> (r\<lparr>p_phase := Polling (t + quiet_period)\<rparr>, [])
      | Some j \<Rightarrow> (r\<lparr>p_phase := Subscribed\<rparr>, map (Pair (p_generation r)) (job_subscriber r j)))"

text \<open>
  The callback of \<open>results\<close>: the guard of line 87,
  \<^verbatim>\<open>if (typeof $jobId != 'number' || !$cachedInput) return;\<close>, then the placeholder, then
  the lookup. \<open>$jobId\<close> and \<open>$cachedInput\<close> are both read off the one value of
  \<open>jobIdAndMetaDerived\<close>: with that value null \<open>$jobId\<close> is null and the callback
  returns; with a published triple \<open>$jobId\<close> is a number and the callback returns when
  the pinned Input is falsy. A callback that returns sets nothing and leaves no cleanup.
\<close>

definition project_callback :: "('i, 'm, 'o) Binding \<Rightarrow> ('i, 'm, 'o) Binding" where
  "project_callback s =
     (case jobIdAndMetaDerived s of
        None \<Rightarrow> s\<lparr>project_cleanup := None\<rparr>
      | Some p \<Rightarrow>
          if \<not> truthy s (pinned_input p) then s\<lparr>project_cleanup := None\<rparr>
          else
            (let r0 = \<lparr>p_jobId = jobId p, p_cachedInput = pinned_input p,
                       p_generation = generation p, p_stop = False,
                       p_phase = Polling (now s + quiet_period)\<rparr>;
                 s1 = emit (generation p) s placeholder;
                 (r1, vs) = resolve (now s) (jobsStore s) r0
             in emit_all
                  (s1\<lparr>project_runs := project_runs s @ [r1],
                      project_cleanup := Some (length (project_runs s))\<rparr>) vs))"

definition project_sync :: "('i, 'm, 'o) Binding \<Rightarrow> ('i, 'm, 'o) Binding" where
  "project_sync s = project_callback (project_stop s)"

text \<open>
  The poll timer of a run fires and the loop condition \<^verbatim>\<open>!stop && !job\<close> is read: a
  stopped run leaves the loop with \<open>job\<close> undefined and throws; any other run looks the
  record up again.
\<close>

definition poll_fired :: "nat \<Rightarrow> (JobId \<rightharpoonup> 'o Job) \<Rightarrow> 'i ProjectRun
    \<Rightarrow> 'i ProjectRun \<times> (nat \<times> ('i, 'o) Results) list" where
  "poll_fired t jobs r =
     (case p_phase r of
        Polling d \<Rightarrow>
          if d \<le> t then
            (if p_stop r then (r\<lparr>p_phase := Threw\<rparr>, []) else resolve t jobs r)
          else (r, [])
      | _ \<Rightarrow> (r, []))"

definition project_timers :: "('i, 'm, 'o) Binding \<Rightarrow> ('i, 'm, 'o) Binding" where
  "project_timers s =
     emit_all
       (s\<lparr>project_runs := map (\<lambda>r. fst (poll_fired (now s) (jobsStore s) r)) (project_runs s)\<rparr>)
       (concat (map (\<lambda>r. snd (poll_fired (now s) (jobsStore s) r)) (project_runs s)))"

text \<open>
  Modelled from the spec: the Job Registry Adapter (module \<open>./events\<close>), a shared map from
  JobId to a live record with change notifications per record. A write of a record
  notifies the subscribers of that job's store: the runs subscribed to the key.
\<close>

definition notified :: "JobId \<Rightarrow> 'o Job \<Rightarrow> 'i ProjectRun \<Rightarrow> (nat \<times> ('i, 'o) Results) list" where
  "notified k j r =
     (if p_phase r = Subscribed \<and> p_jobId r = k
      then map (Pair (p_generation r)) (job_subscriber r j) else [])"

definition job_put :: "JobId \<Rightarrow> 'o Job \<Rightarrow> ('i, 'm, 'o) Binding \<Rightarrow> ('i, 'm, 'o) Binding" where
  "job_put k j s =
     emit_all (s\<lparr>jobsStore := (jobsStore s)(k \<mapsto> j)\<rparr>)
       (concat (map (notified k j) (project_runs s)))"

section \<open>Events and steps\<close>

text \<open>
  \<open>InputSet\<close>: \<open>input.set\<close>, by the consumer or by \<open>generate\<close>.
  \<open>StatusSet\<close>: \<open>compilationStatusStore\<close> gets a value.
  \<open>Tick\<close>: one time unit passes and the timers then due fire.
  \<open>Resolved g j m\<close>: the request of dispatcher run \<open>g\<close> resolves with \<open>{id: j, meta: m}\<close>.
  \<open>Rejected g msg\<close>: that request fails with a transport error.
  \<open>JobPut k j\<close>: the event stream writes record \<open>j\<close> for job \<open>k\<close>.
  \<open>JobsEmit\<close>: \<open>jobsStore\<close> notifies its subscribers.
\<close>

datatype ('i, 'm, 'o) Event =
    InputSet 'i
  | StatusSet "string option"
  | Tick
  | Resolved nat JobId 'm
  | Rejected nat string
  | JobPut JobId "'o Job"
  | JobsEmit

text \<open>
  Lines 55-60 after the request of run \<open>g\<close> resolved: \<open>cancel\<close> becomes the job
  cancellation and \<open>set\<close> publishes the triple, with no look at \<open>stop\<close>. \<open>jobIdDerived\<close>
  and \<open>cachedInput\<close> are both notified before \<open>results\<close> recomputes, once.
\<close>

definition resolved :: "nat \<Rightarrow> JobId \<Rightarrow> 'm \<Rightarrow> ('i, 'm, 'o) Binding \<Rightarrow> ('i, 'm, 'o) Binding" where
  "resolved g j m s =
     (if g < length (dispatch_runs s) \<and> phase (dispatch_runs s ! g) = Requesting then
        project_sync
          (s\<lparr>dispatch_runs := (dispatch_runs s)[g := (dispatch_runs s ! g)\<lparr>phase := Published j\<rparr>],
             jobIdAndMetaDerived :=
               Some \<lparr>jobId = j, pinned_input = run_input (dispatch_runs s ! g),
                     meta_json = m, generation = g\<rparr>\<rparr>)
      else s)"

text \<open>
  The \<open>await\<close> of line 55 throws: nothing catches it, the promise of \<open>run\<close> is rejected
  and no store is written.
\<close>

definition rejected :: "nat \<Rightarrow> string \<Rightarrow> ('i, 'm, 'o) Binding \<Rightarrow> ('i, 'm, 'o) Binding" where
  "rejected g msg s =
     (if g < length (dispatch_runs s) \<and> phase (dispatch_runs s ! g) = Requesting then
        s\<lparr>dispatch_runs := (dispatch_runs s)[g := (dispatch_runs s ! g)\<lparr>phase := Ended\<rparr>]\<rparr>
      else s)"

text \<open>
  A writable store notifies on \<open>set\<close> unless the old and the new value are the same
  primitive: an Input is an object and always notifies, a null status set to null does
  not.
\<close>

fun step :: "('i, 'm, 'o) Binding \<Rightarrow> ('i, 'm, 'o) Event \<Rightarrow> ('i, 'm, 'o) Binding" where
  "step s (InputSet v) = dispatch_sync (s\<lparr>input_store := v\<rparr>)"
| "step s (StatusSet st) =
     (if st = None \<and> compilationStatusStore s = None then s
      else dispatch_sync (s\<lparr>compilationStatusStore := st\<rparr>))"
| "step s Tick = project_timers (dispatch_timers (s\<lparr>now := now s + 1\<rparr>))"
| "step s (Resolved g j m) = resolved g j m s"
| "step s (Rejected g msg) = rejected g msg s"
| "step s (JobPut k j) = job_put k j s"
| "step s JobsEmit = project_sync s"

definition run :: "('i, 'm, 'o) Binding \<Rightarrow> ('i, 'm, 'o) Event list \<Rightarrow> ('i, 'm, 'o) Binding" where
  "run s es = foldl step s es"

text \<open>
  \<open>initializeIo\<close> with the stores subscribed: the callback of \<open>jobIdAndMetaDerived\<close> runs
  once on the default input; the callback of \<open>results\<close> sees a null \<open>$jobId\<close> and
  returns, leaving the initial value of lines 140-146.
\<close>

definition initializeIo :: "bool \<Rightarrow> ('i \<Rightarrow> bool) \<Rightarrow> 'i \<Rightarrow> string option
    \<Rightarrow> (JobId \<rightharpoonup> 'o Job) \<Rightarrow> ('i, 'm, 'o) Binding" where
  "initializeIo b tr defaultInput status jobs =
     dispatch_callback
       \<lparr>now = 0, browser = b, truthy = tr, input_store = defaultInput,
        compilationStatusStore = status, jobsStore = jobs,
        dispatch_runs = [], dispatch_cleanup = None, jobIdAndMetaDerived = None,
        submissions = [], cancels = [],
        project_runs = [], project_cleanup = None,
        results = placeholder, emitted = []\<rparr>"

section \<open>The older variant of the binding (src/unnamed/part_001)\<close>

text \<open>
  The same design without the readiness check, the pinned input and the \<open>Failed\<close>
  branch. \<^verbatim>\<open>type Results<A>\<close> has \<open>latestJobId\<close> where io.ts has \<open>input\<close> and \<open>job\<close>.
\<close>

record 'o LegacyResults =
  l_outputState :: OutputState
  l_output :: "'o option"
  l_referenceOutput :: "'o option"
  l_validation :: "ValidationResult option"
  latestJobId :: "JobId option"

text \<open>
  A run of the callback of \<open>jobIdDerived\<close> (lines 35-62). From line 47 on \<open>cancel\<close> is
  \<^verbatim>\<open>() => { analysisRequest.abort(); api.jobsCancel(jobId).data.catch(() => {}); }\<close>
  and reads the \<open>const jobId\<close> of line 51, which has no value until the \<open>await\<close> of that
  line returns: in \<open>LRequesting\<close>, and in \<open>LRejected\<close> where the \<open>await\<close> threw, calling
  \<open>cancel\<close> raises a ReferenceError after the abort.
\<close>

datatype LegacyPhase =
    LDebouncing nat
  | LRequesting
  | LPublished JobId
  | LReturned
  | LRejected

record 'i LegacyRun =
  l_run_input :: 'i
  l_stop :: bool
  l_phase :: LegacyPhase

record LegacyProjectRun =
  lp_jobId :: JobId
  lp_stop :: bool
  lp_phase :: ProjectPhase

datatype LegacyError = ReferenceError

record ('i, 'o) LegacyBinding =
  l_now :: nat
  l_browser :: bool
  l_input_store :: 'i
  l_jobsStore :: "JobId \<rightharpoonup> 'o Job"
  l_dispatch_runs :: "'i LegacyRun list"
  l_dispatch_cleanup :: "nat option"
  l_jobIdDerived :: "JobId option"
  l_submissions :: "'i list"
  l_cancels :: "JobId list"
  l_project_runs :: "LegacyProjectRun list"
  l_project_cleanup :: "nat option"
  l_results :: "'o LegacyResults"
  l_emitted :: "'o LegacyResults list"

text \<open>
  The cleanup of lines 58-61. The exception of \<open>cancel\<close> leaves the derived store before
  the callback is called again; the model ends there with the error.
\<close>

definition legacy_dispatch_stop :: "('i, 'o) LegacyBinding \<Rightarrow> LegacyError + ('i, 'o) LegacyBinding" where
  "legacy_dispatch_stop s =
     (case l_dispatch_cleanup s of
        None \<Rightarrow> Inr s
      | Some g \<Rightarrow>
          if g < length (l_dispatch_runs s) then
            (let r = l_dispatch_runs s ! g;
                 s' = s\<lparr>l_dispatch_runs := (l_dispatch_runs s)[g := r\<lparr>l_stop := True\<rparr>]\<rparr>
             in case l_phase r of
                  LDebouncing d \<Rightarrow> Inr s'
                | LReturned \<Rightarrow> Inr s'
                | LPublished j \<Rightarrow> Inr (s'\<lparr>l_cancels := l_cancels s @ [j]\<rparr>)
                | LRequesting \<Rightarrow> Inl ReferenceError
                | LRejected \<Rightarrow> Inl ReferenceError)
          else Inr s)"

definition legacy_dispatch_callback :: "('i, 'o) LegacyBinding \<Rightarrow> ('i, 'o) LegacyBinding" where
  "legacy_dispatch_callback s =
     (if \<not> l_browser s then s\<lparr>l_dispatch_cleanup := None\<rparr>
      else s\<lparr>l_dispatch_runs := l_dispatch_runs s @
                [\<lparr>l_run_input = l_input_store s, l_stop = False,
                  l_phase = LDebouncing (l_now s + quiet_period)\<rparr>],
             l_dispatch_cleanup := Some (length (l_dispatch_runs s))\<rparr>)"

definition legacy_dispatch_sync :: "('i, 'o) LegacyBinding \<Rightarrow> LegacyError + ('i, 'o) LegacyBinding" where
  "legacy_dispatch_sync s =
     (case legacy_dispatch_stop s of
        Inl e \<Rightarrow> Inl e
      | Inr s' \<Rightarrow> Inr (legacy_dispatch_callback s'))"

definition legacy_timer_due :: "nat \<Rightarrow> 'i LegacyRun \<Rightarrow> bool" where
  "legacy_timer_due t r = (case l_phase r of LDebouncing d \<Rightarrow> d \<le> t | _ \<Rightarrow> False)"

definition legacy_timer_fired :: "nat \<Rightarrow> 'i LegacyRun \<Rightarrow> 'i LegacyRun" where
  "legacy_timer_fired t r =
     (if legacy_timer_due t r
      then r\<lparr>l_phase := (if l_stop r then LReturned else LRequesting)\<rparr> else r)"

definition legacy_dispatch_timers :: "('i, 'o) LegacyBinding \<Rightarrow> ('i, 'o) LegacyBinding" where
  "legacy_dispatch_timers s =
     s\<lparr>l_dispatch_runs := map (legacy_timer_fired (l_now s)) (l_dispatch_runs s),
       l_submissions := l_submissions s @
         map l_run_input
           (filter (\<lambda>r. legacy_timer_due (l_now s) r \<and> \<not> l_stop r) (l_dispatch_runs s))\<rparr>"

text \<open>The initial value of lines 113-119 and the placeholder of lines 79-85.\<close>

definition legacy_initial :: "'o LegacyResults" where
  "legacy_initial = \<lparr>l_outputState = NoneState, l_output = None,
     l_referenceOutput = None, l_validation = None, latestJobId = None\<rparr>"

definition legacy_placeholder :: "JobId \<Rightarrow> 'o LegacyResults" where
  "legacy_placeholder k = \<lparr>l_outputState = NoneState, l_output = None,
     l_referenceOutput = None, l_validation = None, latestJobId = Some k\<rparr>"

text \<open>The subscriber of lines 93-103: one branch, for \<open>Succeeded\<close>.\<close>

definition legacy_job_subscriber :: "LegacyProjectRun \<Rightarrow> 'o Job \<Rightarrow> 'o LegacyResults list" where
  "legacy_job_subscriber r j =
     (if state j = ''Succeeded'' then
        [\<lparr>l_outputState = Current, l_output = job_output j,
          l_referenceOutput = job_reference_output j,
          l_validation = job_validation j, latestJobId = Some (lp_jobId r)\<rparr>]
      else [])"

definition legacy_emit_all :: "('i, 'o) LegacyBinding \<Rightarrow> 'o LegacyResults list \<Rightarrow> ('i, 'o) LegacyBinding" where
  "legacy_emit_all s vs =
     foldl (\<lambda>s' v. s'\<lparr>l_results := v, l_emitted := l_emitted s' @ [v]\<rparr>) s vs"

definition legacy_unsubscribed :: "LegacyProjectRun \<Rightarrow> LegacyProjectRun" where
  "legacy_unsubscribed r = r\<lparr>lp_stop := True,
     lp_phase := (case lp_phase r of Subscribed \<Rightarrow> Unsubscribed | p \<Rightarrow> p)\<rparr>"

definition legacy_project_stop :: "('i, 'o) LegacyBinding \<Rightarrow> ('i, 'o) LegacyBinding" where
  "legacy_project_stop s =
     (case l_project_cleanup s of
        None \<Rightarrow> s
      | Some k \<Rightarrow>
          if k < length (l_project_runs s) then
            s\<lparr>l_project_runs :=
                (l_project_runs s)[k := legacy_unsubscribed (l_project_runs s ! k)]\<rparr>
          else s)"

definition legacy_resolve :: "nat \<Rightarrow> (JobId \<rightharpoonup> 'o Job) \<Rightarrow> LegacyProjectRun
    \<Rightarrow> LegacyProjectRun \<times> 'o LegacyResults list" where
  "legacy_resolve t jobs r =
     (case jobs (lp_jobId r) of
        None \<Rightarrow> (r\<lparr>lp_phase := Polling (t + quiet_period)\<rparr>, [])
      | Some j \<Rightarrow> (r\<lparr>lp_phase := Subscribed\<rparr>, legacy_job_subscriber r j))"

text \<open>The callback of \<open>results\<close> (lines 72-112): the guard is on \<open>$jobId\<close> alone.\<close>

definition legacy_project_callback :: "('i, 'o) LegacyBinding \<Rightarrow> ('i, 'o) LegacyBinding" where
  "legacy_project_callback s =
     (case l_jobIdDerived s of
        None \<Rightarrow> s\<lparr>l_project_cleanup := None\<rparr>
      | Some k \<Rightarrow>
          (let r0 = \<lparr>lp_jobId = k, lp_stop = False,
                     lp_phase = Polling (l_now s + quiet_period)\<rparr>;
               (r1, vs) = legacy_resolve (l_now s) (l_jobsStore s) r0
           in legacy_emit_all
                (s\<lparr>l_project_runs := l_project_runs s @ [r1],
                   l_project_cleanup := Some (length (l_project_runs s))\<rparr>)
                (legacy_placeholder k # vs)))"

definition legacy_project_sync :: "('i, 'o) LegacyBinding \<Rightarrow> ('i, 'o) LegacyBinding" where
  "legacy_project_sync s = legacy_project_callback (legacy_project_stop s)"

definition legacy_poll_fired :: "nat \<Rightarrow> (JobId \<rightharpoonup> 'o Job) \<Rightarrow> LegacyProjectRun
    \<Rightarrow> LegacyProjectRun \<times> 'o LegacyResults list" where
  "legacy_poll_fired t jobs r =
     (case lp_phase r of
        Polling d \<Rightarrow>
          if d \<le> t then
            (if lp_stop r then (r\<lparr>lp_phase := Threw\<rparr>, []) else legacy_resolve t jobs r)
          else (r, [])
      | _ \<Rightarrow> (r, []))"

definition legacy_project_timers :: "('i, 'o) LegacyBinding \<Rightarrow> ('i, 'o) LegacyBinding" where
  "legacy_project_timers s =
     legacy_emit_all
       (s\<lparr>l_project_runs :=
            map (\<lambda>r. fst (legacy_poll_fired (l_now s) (l_jobsStore s) r)) (l_project_runs s)\<rparr>)
       (concat (map (\<lambda>r. snd (legacy_poll_fired (l_now s) (l_jobsStore s) r))
                  (l_project_runs s)))"

definition legacy_notified :: "JobId \<Rightarrow> 'o Job \<Rightarrow> LegacyProjectRun \<Rightarrow> 'o LegacyResults list" where
  "legacy_notified k j r =
     (if lp_phase r = Subscribed \<and> lp_jobId r = k then legacy_job_subscriber r j else [])"

definition legacy_job_put :: "JobId \<Rightarrow> 'o Job \<Rightarrow> ('i, 'o) LegacyBinding \<Rightarrow> ('i, 'o) LegacyBinding" where
  "legacy_job_put k j s =
     legacy_emit_all (s\<lparr>l_jobsStore := (l_jobsStore s)(k \<mapsto> j)\<rparr>)
       (concat (map (legacy_notified k j) (l_project_runs s)))"

datatype ('i, 'o) LegacyEvent =
    LInputSet 'i
  | LTick
  | LResolved nat JobId
  | LFailed nat string
  | LJobPut JobId "'o Job"
  | LJobsEmit

text \<open>
  Lines 51-53 after the request of run \<open>g\<close> resolved: \<open>set(jobId)\<close>. The value is a
  number, so the store notifies \<open>results\<close> only when it differs from the one it holds.
\<close>

definition legacy_resolved :: "nat \<Rightarrow> JobId \<Rightarrow> ('i, 'o) LegacyBinding \<Rightarrow> ('i, 'o) LegacyBinding" where
  "legacy_resolved g j s =
     (if g < length (l_dispatch_runs s) \<and> l_phase (l_dispatch_runs s ! g) = LRequesting then
        (let s' = s\<lparr>l_dispatch_runs :=
                     (l_dispatch_runs s)[g := (l_dispatch_runs s ! g)\<lparr>l_phase := LPublished j\<rparr>],
                   l_jobIdDerived := Some j\<rparr>
         in if l_jobIdDerived s = Some j then s' else legacy_project_sync s')
      else s)"

definition legacy_failed :: "nat \<Rightarrow> string \<Rightarrow> ('i, 'o) LegacyBinding \<Rightarrow> ('i, 'o) LegacyBinding" where
  "legacy_failed g msg s =
     (if g < length (l_dispatch_runs s) \<and> l_phase (l_dispatch_runs s ! g) = LRequesting then
        s\<lparr>l_dispatch_runs :=
            (l_dispatch_runs s)[g := (l_dispatch_runs s ! g)\<lparr>l_phase := LRejected\<rparr>]\<rparr>
      else s)"

fun legacy_step :: "('i, 'o) LegacyBinding \<Rightarrow> ('i, 'o) LegacyEvent
    \<Rightarrow> LegacyError + ('i, 'o) LegacyBinding" where
  "legacy_step s (LInputSet v) = legacy_dispatch_sync (s\<lparr>l_input_store := v\<rparr>)"
| "legacy_step s LTick =
     Inr (legacy_project_timers (legacy_dispatch_timers (s\<lparr>l_now := l_now s + 1\<rparr>)))"
| "legacy_step s (LResolved g j) = Inr (legacy_resolved g j s)"
| "legacy_step s (LFailed g msg) = Inr (legacy_failed g msg s)"
| "legacy_step s (LJobPut k j) = Inr (legacy_job_put k j s)"
| "legacy_step s LJobsEmit = Inr (legacy_project_sync s)"

fun legacy_run :: "('i, 'o) LegacyBinding \<Rightarrow> ('i, 'o) LegacyEvent list
    \<Rightarrow> LegacyError + ('i, 'o) LegacyBinding" where
  "legacy_run s [] = Inr s"
| "legacy_run s (e # es) =
     (case legacy_step s e of Inl err \<Rightarrow> Inl err | Inr s' \<Rightarrow> legacy_run s' es)"

definition legacy_initializeIo :: "bool \<Rightarrow> 'i \<Rightarrow> (JobId \<rightharpoonup> 'o Job) \<Rightarrow> ('i, 'o) LegacyBinding" where
  "legacy_initializeIo b defaultInput jobs =
     legacy_dispatch_callback
       \<lparr>l_now = 0, l_browser = b, l_input_store = defaultInput, l_jobsStore = jobs,
        l_dispatch_runs = [], l_dispatch_cleanup = None, l_jobIdDerived = None,
        l_submissions = [], l_cancels = [],
        l_project_runs = [], l_project_cleanup = None,
        l_results = legacy_initial, l_emitted = []\<rparr>"

section \<open>Invariants of the reachable states\<close>

text \<open>
  The dispatcher. The run whose cleanup the derived store holds is not stopped, and there
  is one only in a browser with the executor ready; every other run is stopped and has
  no request in flight; the published triple was set by a run that is \<open>Published\<close> with
  that JobId and that input; no published generation is ahead of the current run.
\<close>

definition dispatch_inv :: "('i, 'm, 'o) Binding \<Rightarrow> bool" where
  "dispatch_inv s \<longleftrightarrow>
     (\<forall>g. dispatch_cleanup s = Some g \<longrightarrow>
        g < length (dispatch_runs s) \<and> \<not> stop (dispatch_runs s ! g) \<and>
        browser s \<and> compilationStatusStore s = Some ''Succeeded'') \<and>
     (\<forall>g. g < length (dispatch_runs s) \<longrightarrow> dispatch_cleanup s \<noteq> Some g \<longrightarrow>
        stop (dispatch_runs s ! g) \<and> phase (dispatch_runs s ! g) \<noteq> Requesting) \<and>
     (\<forall>p. jobIdAndMetaDerived s = Some p \<longrightarrow>
        generation p < length (dispatch_runs s) \<and>
        phase (dispatch_runs s ! generation p) = Published (jobId p) \<and>
        run_input (dispatch_runs s ! generation p) = pinned_input p) \<and>
     (\<forall>g p. dispatch_cleanup s = Some g \<longrightarrow> jobIdAndMetaDerived s = Some p \<longrightarrow>
        generation p \<le> g)"

text \<open>No value of the results store, held or emitted, has outputState \<open>Stale\<close>.\<close>

definition never_stale :: "('i, 'm, 'o) Binding \<Rightarrow> bool" where
  "never_stale s \<longleftrightarrow>
     outputState (results s) \<noteq> Stale \<and> (\<forall>e \<in> set (emitted s). outputState (snd e) \<noteq> Stale)"

text \<open>The same for the older variant.\<close>

definition legacy_never_stale :: "('i, 'o) LegacyBinding \<Rightarrow> bool" where
  "legacy_never_stale s \<longleftrightarrow>
     l_outputState (l_results s) \<noteq> Stale \<and> (\<forall>v \<in> set (l_emitted s). l_outputState v \<noteq> Stale)"

section \<open>Sample values\<close>

text \<open>
  Inputs for the concrete runs: \<open>Sample n\<close> are distinct Input objects. The job records
  are a succeeded one with output \<open>x\<close>, a failed one with diagnostic output \<open>boom\<close> and
  a running one. \<open>ready_binding\<close> and \<open>legacy_binding\<close> are the two variants initialised
  in a browser on \<open>Sample 0\<close> with an empty registry, the first with the executor ready.
\<close>

datatype SampleInput = Sample nat

definition succeeded_job :: "string Job" where
  "succeeded_job = \<lparr>state = ''Succeeded'', stdout = [],
     analysis_data = Some \<lparr>ad_output = Some ''x'', ad_reference_output = None,
       ad_validation = Some CorrectTerminated\<rparr>\<rparr>"

definition failed_job :: "string Job" where
  "failed_job = \<lparr>state = ''Failed'', stdout = ''boom'', analysis_data = None\<rparr>"

definition running_job :: "string Job" where
  "running_job = \<lparr>state = ''Running'', stdout = [], analysis_data = None\<rparr>"

definition ready_binding :: "(SampleInput, unit, string) Binding" where
  "ready_binding = initializeIo True (\<lambda>_. True) (Sample 0) (Some ''Succeeded'') Map.empty"

definition legacy_binding :: "(SampleInput, string) LegacyBinding" where
  "legacy_binding = legacy_initializeIo True (Sample 0) Map.empty"

text \<open>
  The projector. The run whose cleanup the results store holds is not stopped and is
  pinned to the published triple, whose Input is truthy; every other run is stopped and
  not subscribed.
  \<open>project_pre\<close> is the part that also holds between the \<open>set\<close> of a new triple and
  the recomputation of \<open>results\<close>.
\<close>

definition project_pre :: "('i, 'm, 'o) Binding \<Rightarrow> bool" where
  "project_pre s \<longleftrightarrow>
     (\<forall>k. project_cleanup s = Some k \<longrightarrow>
        k < length (project_runs s) \<and> \<not> p_stop (project_runs s ! k)) \<and>
     (\<forall>k. k < length (project_runs s) \<longrightarrow> project_cleanup s \<noteq> Some k \<longrightarrow>
        p_stop (project_runs s ! k) \<and> p_phase (project_runs s ! k) \<noteq> Subscribed)"

definition pinned_to :: "('i, 'm) JobIdAndMeta \<Rightarrow> 'i ProjectRun \<Rightarrow> bool" where
  "pinned_to p r \<longleftrightarrow>
     p_generation r = generation p \<and> p_jobId r = jobId p \<and> p_cachedInput r = pinned_input p"

definition project_inv :: "('i, 'm, 'o) Binding \<Rightarrow> bool" where
  "project_inv s \<longleftrightarrow>
     project_pre s \<and>
     (\<forall>k. project_cleanup s = Some k \<longrightarrow>
        (\<exists>p. jobIdAndMetaDerived s = Some p \<and> truthy s (pinned_input p) \<and>
             pinned_to p (project_runs s ! k)))"

text \<open>
  An emitted value pinned to a published triple: it carries the triple's generation and
  is the placeholder or a \<open>Current\<close> value with the triple's input and JobId.
\<close>

definition pinned_value :: "('i, 'm) JobIdAndMeta \<Rightarrow> nat \<times> ('i, 'o) Results \<Rightarrow> bool" where
  "pinned_value p e \<longleftrightarrow>
     fst e = generation p \<and>
     (snd e = placeholder \<or>
      (outputState (snd e) = Current \<and> input (snd e) = Some (pinned_input p) \<and>
       job (snd e) = Some (jobId p)))"

text \<open>
  The log of emissions: its generations never decrease and none is ahead of the
  published one; every \<open>Current\<close> entry carries the input and the JobId of the
  dispatcher run of its generation.
\<close>

definition ordered_inv :: "('i, 'm, 'o) Binding \<Rightarrow> bool" where
  "ordered_inv s \<longleftrightarrow>
     sorted (map fst (emitted s)) \<and>
     (\<forall>e \<in> set (emitted s). \<exists>p. jobIdAndMetaDerived s = Some p \<and> fst e \<le> generation p)"

definition history_inv :: "('i, 'm, 'o) Binding \<Rightarrow> bool" where
  "history_inv s \<longleftrightarrow>
     (\<forall>e \<in> set (emitted s).
        fst e < length (dispatch_runs s) \<and>
        (snd e = placeholder \<or>
         (outputState (snd e) = Current \<and>
          input (snd e) = Some (run_input (dispatch_runs s ! fst e)) \<and>
          (\<exists>j. phase (dispatch_runs s ! fst e) = Published j \<and> job (snd e) = Some j))))"

definition binding_inv :: "('i, 'm, 'o) Binding \<Rightarrow> bool" where
  "binding_inv s \<longleftrightarrow> dispatch_inv s \<and> project_inv s \<and> ordered_inv s \<and> history_inv s"

text \<open>
  The projector of the older variant: the run whose cleanup the results store holds is
  not stopped and resolves the published JobId; every other run is stopped and not
  subscribed.
\<close>

definition legacy_project_pre :: "('i, 'o) LegacyBinding \<Rightarrow> bool" where
  "legacy_project_pre s \<longleftrightarrow>
     (\<forall>k. l_project_cleanup s = Some k \<longrightarrow>
        k < length (l_project_runs s) \<and> \<not> lp_stop (l_project_runs s ! k)) \<and>
     (\<forall>k. k < length (l_project_runs s) \<longrightarrow> l_project_cleanup s \<noteq> Some k \<longrightarrow>
        lp_stop (l_project_runs s ! k) \<and> lp_phase (l_project_runs s ! k) \<noteq> Subscribed)"

definition legacy_project_inv :: "('i, 'o) LegacyBinding \<Rightarrow> bool" where
  "legacy_project_inv s \<longleftrightarrow>
     legacy_project_pre s \<and>
     (\<forall>k. l_project_cleanup s = Some k \<longrightarrow>
        l_jobIdDerived s = Some (lp_jobId (l_project_runs s ! k)))"

text \<open>
  A binding whose Inputs are numbers, for the guard of line 87: 0 is the falsy Input.
\<close>

definition numeric_binding :: "(nat, unit, string) Binding" where
  "numeric_binding = initializeIo True (\<lambda>n. n \<noteq> 0) 1 (Some ''Succeeded'') Map.empty"

text \<open>
  A burst of writes: each value is written and followed by its number of time units.
  \<open>ready\<close>: in a browser with the compilation succeeded. \<open>armed s v d\<close>: the current
  dispatcher run of \<open>s\<close> waits on a timer due at \<open>d\<close> with the captured input \<open>v\<close>.
\<close>

fun burst :: "('i \<times> nat) list \<Rightarrow> ('i, 'm, 'o) Event list" where
  "burst [] = []"
| "burst ((v, n) # ws) = InputSet v # replicate n Tick @ burst ws"

definition ready :: "('i, 'm, 'o) Binding \<Rightarrow> bool" where
  "ready s \<longleftrightarrow> browser s \<and> compilationStatusStore s = Some ''Succeeded''"

definition armed :: "('i, 'm, 'o) Binding \<Rightarrow> 'i \<Rightarrow> nat \<Rightarrow> bool" where
  "armed s v d \<longleftrightarrow>
     dispatch_inv s \<and>
     (\<exists>g. dispatch_cleanup s = Some g \<and>
          dispatch_runs s ! g = \<lparr>run_input = v, stop = False, phase = Debouncing d\<rparr>)"

text \<open>io.ts initialised in a browser while the compiler is still compiling.\<close>

definition compiling_binding :: "(SampleInput, unit, string) Binding" where
  "compiling_binding = initializeIo True (\<lambda>_. True) (Sample 0) (Some ''Compiling'') Map.empty"

section \<open>Emissions\<close>

lemma emit_all_eq:
  "emit_all s vs = s\<lparr>results := (if vs = [] then results s else snd (last vs)),
                      emitted := emitted s @ vs\<rparr>"
proof (induction vs arbitrary: s)
  case Nil
  show ?case by (simp add: emit_all_def)
next
  case (Cons a vs)
  have "emit_all s (a # vs) = emit_all (emit (fst a) s (snd a)) vs"
    by (simp add: emit_all_def case_prod_beta)
  then show ?case
    by (simp add: Cons.IH emit_def)
qed

lemma legacy_emit_all_eq:
  "legacy_emit_all s vs = s\<lparr>l_results := (if vs = [] then l_results s else last vs),
                             l_emitted := l_emitted s @ vs\<rparr>"
proof (induction vs arbitrary: s)
  case Nil
  show ?case by (simp add: legacy_emit_all_def)
next
  case (Cons a vs)
  have "legacy_emit_all s (a # vs) =
        legacy_emit_all (s\<lparr>l_results := a, l_emitted := l_emitted s @ [a]\<rparr>) vs"
    by (simp add: legacy_emit_all_def)
  then show ?case
    by (simp add: Cons.IH)
qed

section \<open>The dispatcher invariant\<close>

lemma dispatch_inv_frame:
  assumes "dispatch_runs s' = dispatch_runs s" "dispatch_cleanup s' = dispatch_cleanup s"
    "browser s' = browser s" "compilationStatusStore s' = compilationStatusStore s"
    "jobIdAndMetaDerived s' = jobIdAndMetaDerived s"
  shows "dispatch_inv s' = dispatch_inv s"
  using assms by (simp add: dispatch_inv_def)

lemma dispatch_inv_sync_input:
  assumes "dispatch_inv s"
  shows "dispatch_inv (dispatch_sync (s\<lparr>input_store := v\<rparr>))"
  using assms
  unfolding dispatch_inv_def dispatch_sync_def dispatch_callback_def dispatch_stop_def cancelled_def
  by (auto simp: nth_append nth_list_update split: option.splits DispatchPhase.splits if_splits)

lemma dispatch_inv_sync_status:
  assumes "dispatch_inv s"
  shows "dispatch_inv (dispatch_sync (s\<lparr>compilationStatusStore := st\<rparr>))"
  using assms
  unfolding dispatch_inv_def dispatch_sync_def dispatch_callback_def dispatch_stop_def cancelled_def
  by (auto simp: nth_append nth_list_update split: option.splits DispatchPhase.splits if_splits)

lemma dispatch_inv_timers:
  assumes "dispatch_inv s"
  shows "dispatch_inv (dispatch_timers (s\<lparr>now := t\<rparr>))"
  using assms
  unfolding dispatch_inv_def dispatch_timers_def timer_fired_def timer_due_def
  by (auto split: DispatchPhase.splits if_splits)

section \<open>What each operation leaves unchanged\<close>

lemma project_stop_frame [simp]:
  "truthy (project_stop s) = truthy s"
  "dispatch_runs (project_stop s) = dispatch_runs s"
  "dispatch_cleanup (project_stop s) = dispatch_cleanup s"
  "browser (project_stop s) = browser s"
  "compilationStatusStore (project_stop s) = compilationStatusStore s"
  "jobIdAndMetaDerived (project_stop s) = jobIdAndMetaDerived s"
  "submissions (project_stop s) = submissions s"
  "cancels (project_stop s) = cancels s"
  "jobsStore (project_stop s) = jobsStore s"
  "now (project_stop s) = now s"
  "input_store (project_stop s) = input_store s"
  "results (project_stop s) = results s"
  "emitted (project_stop s) = emitted s"
  by (simp_all add: project_stop_def split: option.splits)

lemma project_callback_frame [simp]:
  "truthy (project_callback s) = truthy s"
  "dispatch_runs (project_callback s) = dispatch_runs s"
  "dispatch_cleanup (project_callback s) = dispatch_cleanup s"
  "browser (project_callback s) = browser s"
  "compilationStatusStore (project_callback s) = compilationStatusStore s"
  "jobIdAndMetaDerived (project_callback s) = jobIdAndMetaDerived s"
  "submissions (project_callback s) = submissions s"
  "cancels (project_callback s) = cancels s"
  "jobsStore (project_callback s) = jobsStore s"
  "now (project_callback s) = now s"
  "input_store (project_callback s) = input_store s"
  by (simp_all add: project_callback_def emit_all_eq emit_def Let_def
        split: option.splits prod.splits if_splits)

lemma project_sync_frame [simp]:
  "truthy (project_sync s) = truthy s"
  "dispatch_runs (project_sync s) = dispatch_runs s"
  "dispatch_cleanup (project_sync s) = dispatch_cleanup s"
  "browser (project_sync s) = browser s"
  "compilationStatusStore (project_sync s) = compilationStatusStore s"
  "jobIdAndMetaDerived (project_sync s) = jobIdAndMetaDerived s"
  "submissions (project_sync s) = submissions s"
  "cancels (project_sync s) = cancels s"
  "jobsStore (project_sync s) = jobsStore s"
  "now (project_sync s) = now s"
  "input_store (project_sync s) = input_store s"
  by (simp_all add: project_sync_def)

lemma project_timers_frame [simp]:
  "truthy (project_timers s) = truthy s"
  "dispatch_runs (project_timers s) = dispatch_runs s"
  "dispatch_cleanup (project_timers s) = dispatch_cleanup s"
  "browser (project_timers s) = browser s"
  "compilationStatusStore (project_timers s) = compilationStatusStore s"
  "jobIdAndMetaDerived (project_timers s) = jobIdAndMetaDerived s"
  "submissions (project_timers s) = submissions s"
  "cancels (project_timers s) = cancels s"
  "jobsStore (project_timers s) = jobsStore s"
  "now (project_timers s) = now s"
  "input_store (project_timers s) = input_store s"
  "project_cleanup (project_timers s) = project_cleanup s"
  by (simp_all add: project_timers_def emit_all_eq)

lemma job_put_frame [simp]:
  "truthy (job_put k j s) = truthy s"
  "dispatch_runs (job_put k j s) = dispatch_runs s"
  "dispatch_cleanup (job_put k j s) = dispatch_cleanup s"
  "browser (job_put k j s) = browser s"
  "compilationStatusStore (job_put k j s) = compilationStatusStore s"
  "jobIdAndMetaDerived (job_put k j s) = jobIdAndMetaDerived s"
  "submissions (job_put k j s) = submissions s"
  "cancels (job_put k j s) = cancels s"
  "now (job_put k j s) = now s"
  "input_store (job_put k j s) = input_store s"
  "project_runs (job_put k j s) = project_runs s"
  "project_cleanup (job_put k j s) = project_cleanup s"
  by (simp_all add: job_put_def emit_all_eq)

lemma dispatch_sync_frame [simp]:
  "truthy (dispatch_sync s) = truthy s"
  "jobIdAndMetaDerived (dispatch_sync s) = jobIdAndMetaDerived s"
  "submissions (dispatch_sync s) = submissions s"
  "jobsStore (dispatch_sync s) = jobsStore s"
  "now (dispatch_sync s) = now s"
  "input_store (dispatch_sync s) = input_store s"
  "browser (dispatch_sync s) = browser s"
  "compilationStatusStore (dispatch_sync s) = compilationStatusStore s"
  "project_runs (dispatch_sync s) = project_runs s"
  "project_cleanup (dispatch_sync s) = project_cleanup s"
  "results (dispatch_sync s) = results s"
  "emitted (dispatch_sync s) = emitted s"
  by (simp_all add: dispatch_sync_def dispatch_callback_def dispatch_stop_def
        split: option.splits)

lemma dispatch_timers_frame [simp]:
  "truthy (dispatch_timers s) = truthy s"
  "jobIdAndMetaDerived (dispatch_timers s) = jobIdAndMetaDerived s"
  "cancels (dispatch_timers s) = cancels s"
  "jobsStore (dispatch_timers s) = jobsStore s"
  "now (dispatch_timers s) = now s"
  "input_store (dispatch_timers s) = input_store s"
  "browser (dispatch_timers s) = browser s"
  "compilationStatusStore (dispatch_timers s) = compilationStatusStore s"
  "dispatch_cleanup (dispatch_timers s) = dispatch_cleanup s"
  "project_runs (dispatch_timers s) = project_runs s"
  "project_cleanup (dispatch_timers s) = project_cleanup s"
  "results (dispatch_timers s) = results s"
  "emitted (dispatch_timers s) = emitted s"
  by (simp_all add: dispatch_timers_def)

lemma rejected_frame [simp]:
  "truthy (rejected g msg s) = truthy s"
  "jobIdAndMetaDerived (rejected g msg s) = jobIdAndMetaDerived s"
  "submissions (rejected g msg s) = submissions s"
  "cancels (rejected g msg s) = cancels s"
  "jobsStore (rejected g msg s) = jobsStore s"
  "now (rejected g msg s) = now s"
  "input_store (rejected g msg s) = input_store s"
  "browser (rejected g msg s) = browser s"
  "compilationStatusStore (rejected g msg s) = compilationStatusStore s"
  "dispatch_cleanup (rejected g msg s) = dispatch_cleanup s"
  "project_runs (rejected g msg s) = project_runs s"
  "project_cleanup (rejected g msg s) = project_cleanup s"
  "results (rejected g msg s) = results s"
  "emitted (rejected g msg s) = emitted s"
  by (simp_all add: rejected_def)

lemma dispatch_inv_rejected:
  assumes "dispatch_inv s"
  shows "dispatch_inv (rejected g msg s)"
proof (cases "g < length (dispatch_runs s) \<and> phase (dispatch_runs s ! g) = Requesting")
  case False
  then have "rejected g msg s = s" by (auto simp: rejected_def)
  then show ?thesis using assms by simp
next
  case True
  from True assms have cur: "dispatch_cleanup s = Some g"
    unfolding dispatch_inv_def by blast
  have eq: "rejected g msg s =
      s\<lparr>dispatch_runs := (dispatch_runs s)[g := (dispatch_runs s ! g)\<lparr>phase := Ended\<rparr>]\<rparr>"
    using True by (simp add: rejected_def)
  show ?thesis
    unfolding eq using assms True cur unfolding dispatch_inv_def
    by (auto simp: nth_list_update)
qed

lemma dispatch_inv_project_sync: "dispatch_inv (project_sync s) = dispatch_inv s"
  by (rule dispatch_inv_frame) simp_all

lemma dispatch_inv_project_timers: "dispatch_inv (project_timers s) = dispatch_inv s"
  by (rule dispatch_inv_frame) simp_all

lemma dispatch_inv_job_put: "dispatch_inv (job_put k j s) = dispatch_inv s"
  by (rule dispatch_inv_frame) simp_all

lemma requesting_is_current:
  assumes "dispatch_inv s" "g < length (dispatch_runs s)" "phase (dispatch_runs s ! g) = Requesting"
  shows "dispatch_cleanup s = Some g"
  using assms unfolding dispatch_inv_def by blast

lemma dispatch_inv_resolved:
  assumes "dispatch_inv s"
  shows "dispatch_inv (resolved g j m s)"
proof (cases "g < length (dispatch_runs s) \<and> phase (dispatch_runs s ! g) = Requesting")
  case False
  then have "resolved g j m s = s" by (auto simp: resolved_def)
  then show ?thesis using assms by simp
next
  case True
  let ?s' = "s\<lparr>dispatch_runs := (dispatch_runs s)[g := (dispatch_runs s ! g)\<lparr>phase := Published j\<rparr>],
             jobIdAndMetaDerived :=
               Some \<lparr>jobId = j, pinned_input = run_input (dispatch_runs s ! g),
                     meta_json = m, generation = g\<rparr>\<rparr>"
  from True assms have cur: "dispatch_cleanup s = Some g"
    by (simp add: requesting_is_current)
  have "dispatch_inv ?s'"
    using assms True cur unfolding dispatch_inv_def
    by (auto simp: nth_list_update)
  moreover have "resolved g j m s = project_sync ?s'"
    using True by (simp add: resolved_def)
  ultimately show ?thesis
    by (simp add: dispatch_inv_project_sync)
qed

lemma dispatch_inv_step:
  assumes "dispatch_inv s"
  shows "dispatch_inv (step s e)"
proof (cases e)
  case (InputSet v)
  then show ?thesis using assms by (simp add: dispatch_inv_sync_input)
next
  case (StatusSet st)
  then show ?thesis using assms by (simp add: dispatch_inv_sync_status)
next
  case Tick
  have "dispatch_inv (dispatch_timers (s\<lparr>now := now s + 1\<rparr>))"
    using assms by (rule dispatch_inv_timers)
  then show ?thesis using Tick
    by (simp add: dispatch_inv_project_timers)
next
  case (Resolved g j m)
  then show ?thesis using assms by (simp add: dispatch_inv_resolved)
next
  case (Rejected g msg)
  then show ?thesis using assms by (simp add: dispatch_inv_rejected)
next
  case (JobPut k j)
  then show ?thesis using assms by (simp add: dispatch_inv_job_put)
next
  case JobsEmit
  then show ?thesis using assms by (simp add: dispatch_inv_project_sync)
qed

lemma dispatch_inv_init: "dispatch_inv (initializeIo b tr d st jobs)"
  unfolding dispatch_inv_def initializeIo_def dispatch_callback_def
  by auto

lemma dispatch_inv_run:
  assumes "dispatch_inv s"
  shows "dispatch_inv (run s es)"
  using assms unfolding run_def
  by (induction es arbitrary: s) (simp_all add: dispatch_inv_step)

section \<open>The output states that are produced\<close>

lemma job_subscriber_current:
  "v \<in> set (job_subscriber r j) \<Longrightarrow> outputState v = Current"
  by (auto simp: job_subscriber_def split: if_splits)

lemma resolve_current:
  "e \<in> set (snd (resolve t jobs r)) \<Longrightarrow> outputState (snd e) = Current"
  by (auto simp: resolve_def job_subscriber_current split: option.splits)

lemma poll_fired_current:
  "e \<in> set (snd (poll_fired t jobs r)) \<Longrightarrow> outputState (snd e) = Current"
  by (auto simp: poll_fired_def resolve_current split: ProjectPhase.splits if_splits)

lemma notified_current:
  "e \<in> set (notified k j r) \<Longrightarrow> outputState (snd e) = Current"
  by (auto simp: notified_def job_subscriber_current split: if_splits)

lemma never_stale_emit_all:
  assumes "never_stale s" "\<forall>e \<in> set vs. outputState (snd e) \<noteq> Stale"
  shows "never_stale (emit_all s vs)"
  using assms by (auto simp: never_stale_def emit_all_eq)

lemma never_stale_frame:
  assumes "results s' = results s" "emitted s' = emitted s"
  shows "never_stale s' = never_stale s"
  using assms by (simp add: never_stale_def)

lemma never_stale_project_sync:
  assumes "never_stale s"
  shows "never_stale (project_sync s)"
proof (cases "jobIdAndMetaDerived s")
  case None
  then show ?thesis using assms
    by (simp add: project_sync_def project_callback_def never_stale_def)
next
  case (Some p)
  obtain r1 vs where rv: "resolve (now s) (jobsStore s)
      \<lparr>p_jobId = jobId p, p_cachedInput = pinned_input p,
       p_generation = generation p, p_stop = False,
       p_phase = Polling (now s + quiet_period)\<rparr> = (r1, vs)"
    by (cases "resolve (now s) (jobsStore s)
      \<lparr>p_jobId = jobId p, p_cachedInput = pinned_input p,
       p_generation = generation p, p_stop = False,
       p_phase = Polling (now s + quiet_period)\<rparr>") auto
  have vs: "\<forall>e \<in> set vs. outputState (snd e) = Current"
    using resolve_current [of _ "now s" "jobsStore s"] rv
    by (metis snd_conv)
  show ?thesis using assms Some rv vs
    by (auto simp: project_sync_def project_callback_def never_stale_def emit_all_eq emit_def
          placeholder_def Let_def)
qed

lemma never_stale_step:
  assumes "never_stale s"
  shows "never_stale (step s e)"
proof (cases e)
  case (InputSet v)
  then show ?thesis using assms by (simp add: never_stale_def)
next
  case (StatusSet st)
  then show ?thesis using assms by (simp add: never_stale_def)
next
  case Tick
  have "never_stale (dispatch_timers (s\<lparr>now := now s + 1\<rparr>))"
    using assms by (simp add: never_stale_def)
  then have "never_stale (project_timers (dispatch_timers (s\<lparr>now := now s + 1\<rparr>)))"
    unfolding project_timers_def
    by (intro never_stale_emit_all) (auto simp: never_stale_def dest!: poll_fired_current)
  then show ?thesis using Tick by simp
next
  case (Resolved g j m)
  show ?thesis
  proof (cases "g < length (dispatch_runs s) \<and> phase (dispatch_runs s ! g) = Requesting")
    case False
    then have "resolved g j m s = s" by (auto simp: resolved_def)
    then show ?thesis using assms Resolved by simp
  next
    case True
    let ?s' = "s\<lparr>dispatch_runs := (dispatch_runs s)[g := (dispatch_runs s ! g)\<lparr>phase := Published j\<rparr>],
             jobIdAndMetaDerived :=
               Some \<lparr>jobId = j, pinned_input = run_input (dispatch_runs s ! g),
                     meta_json = m, generation = g\<rparr>\<rparr>"
    have "never_stale ?s'" using assms by (simp add: never_stale_def)
    then have "never_stale (project_sync ?s')" by (rule never_stale_project_sync)
    then show ?thesis using True Resolved by (simp add: resolved_def)
  qed
next
  case (Rejected g msg)
  then show ?thesis using assms by (simp add: never_stale_def)
next
  case (JobPut k j)
  have "never_stale (job_put k j s)"
    unfolding job_put_def using assms
    by (intro never_stale_emit_all) (auto simp: never_stale_def dest!: notified_current)
  then show ?thesis using JobPut by simp
next
  case JobsEmit
  then show ?thesis using assms by (simp add: never_stale_project_sync)
qed

lemma never_stale_run:
  assumes "never_stale s"
  shows "never_stale (run s es)"
  using assms unfolding run_def
  by (induction es arbitrary: s) (simp_all add: never_stale_step)

lemma never_stale_init: "never_stale (initializeIo b tr d st jobs)"
  by (simp add: never_stale_def initializeIo_def dispatch_callback_def placeholder_def)

lemma legacy_job_subscriber_current:
  "v \<in> set (legacy_job_subscriber r j) \<Longrightarrow> l_outputState v = Current"
  by (auto simp: legacy_job_subscriber_def split: if_splits)

lemma legacy_resolve_current:
  "v \<in> set (snd (legacy_resolve t jobs r)) \<Longrightarrow> l_outputState v = Current"
  by (auto simp: legacy_resolve_def legacy_job_subscriber_current split: option.splits)

lemma legacy_poll_fired_current:
  "v \<in> set (snd (legacy_poll_fired t jobs r)) \<Longrightarrow> l_outputState v = Current"
  by (auto simp: legacy_poll_fired_def legacy_resolve_current split: ProjectPhase.splits if_splits)

lemma legacy_notified_current:
  "v \<in> set (legacy_notified k j r) \<Longrightarrow> l_outputState v = Current"
  by (auto simp: legacy_notified_def legacy_job_subscriber_current split: if_splits)

lemma legacy_never_stale_emit_all:
  assumes "legacy_never_stale s" "\<forall>v \<in> set vs. l_outputState v \<noteq> Stale"
  shows "legacy_never_stale (legacy_emit_all s vs)"
  using assms by (auto simp: legacy_never_stale_def legacy_emit_all_eq)

lemma legacy_project_stop_results [simp]:
  "l_results (legacy_project_stop s) = l_results s"
  "l_emitted (legacy_project_stop s) = l_emitted s"
  "l_jobIdDerived (legacy_project_stop s) = l_jobIdDerived s"
  "l_jobsStore (legacy_project_stop s) = l_jobsStore s"
  "l_now (legacy_project_stop s) = l_now s"
  by (simp_all add: legacy_project_stop_def split: option.splits)

lemma legacy_never_stale_project_sync:
  assumes "legacy_never_stale s"
  shows "legacy_never_stale (legacy_project_sync s)"
proof (cases "l_jobIdDerived s")
  case None
  then show ?thesis using assms
    by (simp add: legacy_project_sync_def legacy_project_callback_def legacy_never_stale_def)
next
  case (Some k)
  let ?r0 = "\<lparr>lp_jobId = k, lp_stop = False, lp_phase = Polling (l_now s + quiet_period)\<rparr>"
  obtain r1 vs where rv: "legacy_resolve (l_now s) (l_jobsStore s) ?r0 = (r1, vs)"
    by (cases "legacy_resolve (l_now s) (l_jobsStore s) ?r0") auto
  have vs: "\<forall>v \<in> set vs. l_outputState v = Current"
    using legacy_resolve_current [of _ "l_now s" "l_jobsStore s" ?r0] rv by simp
  have st: "legacy_never_stale (legacy_project_stop s)"
    using assms by (simp add: legacy_never_stale_def)
  have "legacy_project_sync s =
      legacy_emit_all
        ((legacy_project_stop s)\<lparr>l_project_runs := l_project_runs (legacy_project_stop s) @ [r1],
           l_project_cleanup := Some (length (l_project_runs (legacy_project_stop s)))\<rparr>)
        (legacy_placeholder k # vs)"
    using Some rv by (simp add: legacy_project_sync_def legacy_project_callback_def)
  moreover have "legacy_never_stale \<dots>"
    using st vs
    by (intro legacy_never_stale_emit_all)
       (auto simp: legacy_never_stale_def legacy_placeholder_def)
  ultimately show ?thesis by simp
qed

lemma legacy_never_stale_step:
  assumes "legacy_never_stale s" "legacy_step s e = Inr s'"
  shows "legacy_never_stale s'"
proof (cases e)
  case (LInputSet v)
  then show ?thesis using assms
    by (auto simp: legacy_never_stale_def legacy_dispatch_sync_def legacy_dispatch_stop_def
          legacy_dispatch_callback_def Let_def
          split: sum.splits option.splits if_splits LegacyPhase.splits)
next
  case LTick
  let ?s1 = "legacy_dispatch_timers (s\<lparr>l_now := l_now s + 1\<rparr>)"
  have "legacy_never_stale ?s1"
    using assms(1) by (simp add: legacy_never_stale_def legacy_dispatch_timers_def)
  then have "legacy_never_stale (legacy_project_timers ?s1)"
    unfolding legacy_project_timers_def
    by (intro legacy_never_stale_emit_all)
       (auto simp: legacy_never_stale_def dest!: legacy_poll_fired_current)
  then show ?thesis using LTick assms(2) by auto
next
  case (LResolved g j)
  let ?s' = "s\<lparr>l_dispatch_runs :=
                 (l_dispatch_runs s)[g := (l_dispatch_runs s ! g)\<lparr>l_phase := LPublished j\<rparr>],
               l_jobIdDerived := Some j\<rparr>"
  have a: "legacy_never_stale ?s'" using assms(1) by (simp add: legacy_never_stale_def)
  then have b: "legacy_never_stale (legacy_project_sync ?s')"
    by (rule legacy_never_stale_project_sync)
  have "legacy_never_stale (legacy_resolved g j s)"
    using a b assms(1) by (simp add: legacy_resolved_def Let_def)
  then show ?thesis using LResolved assms(2) by auto
next
  case (LFailed g msg)
  have "legacy_never_stale (legacy_failed g msg s)"
    using assms(1) by (simp add: legacy_never_stale_def legacy_failed_def)
  then show ?thesis using LFailed assms(2) by auto
next
  case (LJobPut k j)
  have "legacy_never_stale (legacy_job_put k j s)"
    unfolding legacy_job_put_def using assms(1)
    by (intro legacy_never_stale_emit_all)
       (auto simp: legacy_never_stale_def dest!: legacy_notified_current)
  then show ?thesis using LJobPut assms(2) by auto
next
  case LJobsEmit
  then show ?thesis using assms by (auto simp: legacy_never_stale_project_sync)
qed

lemma legacy_never_stale_run:
  assumes "legacy_never_stale s" "legacy_run s es = Inr s'"
  shows "legacy_never_stale s'"
  using assms
proof (induction es arbitrary: s)
  case Nil
  then show ?case by simp
next
  case (Cons e es)
  then show ?case
    by (auto split: sum.splits dest: legacy_never_stale_step)
qed

lemma legacy_never_stale_init: "legacy_never_stale (legacy_initializeIo b d jobs)"
  by (simp add: legacy_never_stale_def legacy_initializeIo_def legacy_dispatch_callback_def
        legacy_initial_def)

section \<open>The projector invariant\<close>

lemma project_pre_frame:
  assumes "project_runs s' = project_runs s" "project_cleanup s' = project_cleanup s"
  shows "project_pre s' = project_pre s"
  using assms by (simp add: project_pre_def)

lemma project_inv_frame:
  assumes "project_runs s' = project_runs s" "project_cleanup s' = project_cleanup s"
    "jobIdAndMetaDerived s' = jobIdAndMetaDerived s" "truthy s' = truthy s"
  shows "project_inv s' = project_inv s"
  using assms by (simp add: project_inv_def project_pre_def)

lemma resolve_fst:
  "p_stop (fst (resolve t jobs r)) = p_stop r"
  "p_jobId (fst (resolve t jobs r)) = p_jobId r"
  "p_cachedInput (fst (resolve t jobs r)) = p_cachedInput r"
  "p_generation (fst (resolve t jobs r)) = p_generation r"
  by (simp_all add: resolve_def split: option.splits)

lemma poll_fired_fst:
  "p_stop (fst (poll_fired t jobs r)) = p_stop r"
  "p_jobId (fst (poll_fired t jobs r)) = p_jobId r"
  "p_cachedInput (fst (poll_fired t jobs r)) = p_cachedInput r"
  "p_generation (fst (poll_fired t jobs r)) = p_generation r"
  by (simp_all add: poll_fired_def resolve_fst split: ProjectPhase.splits)

lemma poll_fired_stopped:
  "p_stop r \<Longrightarrow> p_phase r \<noteq> Subscribed \<Longrightarrow>
     p_phase (fst (poll_fired t jobs r)) \<noteq> Subscribed \<and> snd (poll_fired t jobs r) = []"
  by (simp add: poll_fired_def split: ProjectPhase.splits)

lemma project_stop_pre:
  assumes "project_pre s"
  shows "\<forall>k. k < length (project_runs (project_stop s)) \<longrightarrow>
           p_stop (project_runs (project_stop s) ! k) \<and>
           p_phase (project_runs (project_stop s) ! k) \<noteq> Subscribed"
  using assms unfolding project_pre_def project_stop_def unsubscribed_def
  by (auto simp: nth_list_update split: option.splits ProjectPhase.splits)

lemma project_callback_runs:
  "jobIdAndMetaDerived s = Some p \<Longrightarrow> truthy s (pinned_input p) \<Longrightarrow>
     project_cleanup (project_callback s) = Some (length (project_runs s)) \<and>
     project_runs (project_callback s) =
       project_runs s @
         [fst (resolve (now s) (jobsStore s)
            \<lparr>p_jobId = jobId p, p_cachedInput = pinned_input p,
             p_generation = generation p, p_stop = False,
             p_phase = Polling (now s + quiet_period)\<rparr>)]"
  by (simp add: project_callback_def emit_all_eq emit_def Let_def split: prod.splits)

lemma project_callback_none:
  "jobIdAndMetaDerived s = None \<Longrightarrow> project_callback s = s\<lparr>project_cleanup := None\<rparr>"
  by (simp add: project_callback_def)

lemma project_callback_falsy:
  "jobIdAndMetaDerived s = Some p \<Longrightarrow> \<not> truthy s (pinned_input p) \<Longrightarrow>
     project_callback s = s\<lparr>project_cleanup := None\<rparr>"
  by (simp add: project_callback_def)

lemma guard_cases:
  obtains (returns) "project_callback s = s\<lparr>project_cleanup := None\<rparr>"
    "jobIdAndMetaDerived s = None \<or>
       (\<exists>p. jobIdAndMetaDerived s = Some p \<and> \<not> truthy s (pinned_input p))"
  | (passes) p where "jobIdAndMetaDerived s = Some p" "truthy s (pinned_input p)"
proof (cases "jobIdAndMetaDerived s")
  case None
  then show ?thesis using returns project_callback_none by blast
next
  case (Some p)
  then show ?thesis
    using returns passes project_callback_falsy by (cases "truthy s (pinned_input p)") blast+
qed

lemma project_inv_sync:
  assumes "project_pre s"
  shows "project_inv (project_sync s)"
proof (cases "project_stop s" rule: guard_cases)
  case returns
  then have "project_sync s = (project_stop s)\<lparr>project_cleanup := None\<rparr>"
    by (simp add: project_sync_def)
  then show ?thesis
    using project_stop_pre [OF assms]
    by (simp add: project_inv_def project_pre_def)
next
  case (passes p)
  let ?t = "project_stop s"
  note cb = project_callback_runs [OF passes]
  show ?thesis
    unfolding project_sync_def project_inv_def project_pre_def
    using project_stop_pre [OF assms] cb passes
    by (auto simp: nth_append resolve_fst pinned_to_def)
qed

lemma project_inv_pre: "project_inv s \<Longrightarrow> project_pre s"
  by (simp add: project_inv_def)

lemma project_inv_timers:
  assumes "project_inv s"
  shows "project_inv (project_timers s)"
  using assms
  unfolding project_inv_def project_pre_def project_timers_def
  by (auto simp: emit_all_eq poll_fired_fst poll_fired_stopped pinned_to_def)

lemma project_inv_resolved:
  assumes "project_inv s"
  shows "project_inv (resolved g j m s)"
proof (cases "g < length (dispatch_runs s) \<and> phase (dispatch_runs s ! g) = Requesting")
  case False
  then have "resolved g j m s = s" by (auto simp: resolved_def)
  then show ?thesis using assms by simp
next
  case True
  let ?s' = "s\<lparr>dispatch_runs := (dispatch_runs s)[g := (dispatch_runs s ! g)\<lparr>phase := Published j\<rparr>],
             jobIdAndMetaDerived :=
               Some \<lparr>jobId = j, pinned_input = run_input (dispatch_runs s ! g),
                     meta_json = m, generation = g\<rparr>\<rparr>"
  have "project_pre ?s'"
    using assms by (simp add: project_inv_def project_pre_def)
  then have "project_inv (project_sync ?s')" by (rule project_inv_sync)
  then show ?thesis using True by (simp add: resolved_def)
qed

lemma project_inv_step:
  assumes "project_inv s"
  shows "project_inv (step s e)"
proof (cases e)
  case (InputSet v)
  then show ?thesis using assms
    by (simp add: project_inv_frame [of "dispatch_sync x" x for x] project_inv_def project_pre_def)
next
  case (StatusSet st)
  then show ?thesis using assms
    by (simp add: project_inv_frame [of "dispatch_sync x" x for x] project_inv_def project_pre_def)
next
  case Tick
  have "project_inv (dispatch_timers (s\<lparr>now := now s + 1\<rparr>))"
    using assms by (simp add: project_inv_def project_pre_def)
  then show ?thesis using Tick by (simp add: project_inv_timers)
next
  case (Resolved g j m)
  then show ?thesis using assms by (simp add: project_inv_resolved)
next
  case (Rejected g msg)
  then show ?thesis using assms by (simp add: project_inv_def project_pre_def)
next
  case (JobPut k j)
  then show ?thesis using assms by (simp add: project_inv_def project_pre_def)
next
  case JobsEmit
  then show ?thesis using assms by (simp add: project_inv_sync project_inv_pre)
qed

lemma project_inv_init: "project_inv (initializeIo b tr d st jobs)"
  by (simp add: project_inv_def project_pre_def initializeIo_def dispatch_callback_def)

lemma project_inv_run:
  assumes "project_inv s"
  shows "project_inv (run s es)"
  using assms unfolding run_def
  by (induction es arbitrary: s) (simp_all add: project_inv_step)

section \<open>Every emission is pinned to the published dispatch\<close>

lemma job_subscriber_pinned:
  assumes "pinned_to p r" "v \<in> set (job_subscriber r j)"
  shows "pinned_value p (p_generation r, v)"
  using assms
  by (auto simp: pinned_to_def pinned_value_def job_subscriber_def split: if_splits)

lemma resolve_pinned:
  assumes "pinned_to p r" "x \<in> set (snd (resolve t jobs r))"
  shows "pinned_value p x"
  using assms job_subscriber_pinned [OF assms(1)]
  by (auto simp: resolve_def split: option.splits)

lemma poll_fired_pinned:
  assumes "pinned_to p r" "x \<in> set (snd (poll_fired t jobs r))"
  shows "pinned_value p x"
  using assms(2) resolve_pinned [OF assms(1), of x t jobs]
  by (cases x) (auto simp: poll_fired_def split: ProjectPhase.splits if_splits)

lemma poll_fired_unstopped:
  "x \<in> set (snd (poll_fired t jobs r)) \<Longrightarrow> \<not> p_stop r"
  by (auto simp: poll_fired_def split: ProjectPhase.splits if_splits)

lemma notified_pinned:
  assumes "pinned_to p r" "x \<in> set (notified k j r)"
  shows "pinned_value p x"
  using assms job_subscriber_pinned [OF assms(1)]
  by (auto simp: notified_def split: if_splits)

lemma notified_subscribed:
  "x \<in> set (notified k j r) \<Longrightarrow> p_phase r = Subscribed"
  by (auto simp: notified_def split: if_splits)

lemma unstopped_is_current:
  assumes "project_inv s" "r \<in> set (project_runs s)" "\<not> p_stop r \<or> p_phase r = Subscribed"
  shows "\<exists>p. jobIdAndMetaDerived s = Some p \<and> pinned_to p r"
proof -
  from assms(2) obtain k where k: "k < length (project_runs s)" "project_runs s ! k = r"
    by (auto simp: in_set_conv_nth)
  with assms(1,3) have "project_cleanup s = Some k"
    unfolding project_inv_def project_pre_def by blast
  with assms(1) k show ?thesis
    unfolding project_inv_def by auto
qed

lemma project_timers_emits:
  assumes "project_inv s"
  shows "\<exists>vs. emitted (project_timers s) = emitted s @ vs \<and>
           (\<forall>x \<in> set vs. \<exists>p. jobIdAndMetaDerived s = Some p \<and> pinned_value p x)"
proof -
  let ?vs = "concat (map (\<lambda>r. snd (poll_fired (now s) (jobsStore s) r)) (project_runs s))"
  have "emitted (project_timers s) = emitted s @ ?vs"
    by (simp add: project_timers_def emit_all_eq)
  moreover have "\<forall>x \<in> set ?vs. \<exists>p. jobIdAndMetaDerived s = Some p \<and> pinned_value p x"
  proof
    fix x assume "x \<in> set ?vs"
    then obtain r where r: "r \<in> set (project_runs s)"
        "x \<in> set (snd (poll_fired (now s) (jobsStore s) r))"
      by auto
    from r(2) have "\<not> p_stop r" by (rule poll_fired_unstopped)
    with assms r(1) obtain p where "jobIdAndMetaDerived s = Some p" "pinned_to p r"
      using unstopped_is_current by blast
    with r(2) show "\<exists>p. jobIdAndMetaDerived s = Some p \<and> pinned_value p x"
      using poll_fired_pinned by blast
  qed
  ultimately show ?thesis by blast
qed

lemma job_put_emits:
  assumes "project_inv s"
  shows "\<exists>vs. emitted (job_put k j s) = emitted s @ vs \<and>
           (\<forall>x \<in> set vs. \<exists>p. jobIdAndMetaDerived s = Some p \<and> pinned_value p x)"
proof -
  let ?vs = "concat (map (notified k j) (project_runs s))"
  have "emitted (job_put k j s) = emitted s @ ?vs"
    by (simp add: job_put_def emit_all_eq)
  moreover have "\<forall>x \<in> set ?vs. \<exists>p. jobIdAndMetaDerived s = Some p \<and> pinned_value p x"
  proof
    fix x assume "x \<in> set ?vs"
    then obtain r where r: "r \<in> set (project_runs s)" "x \<in> set (notified k j r)"
      by auto
    from r(2) have "p_phase r = Subscribed" by (rule notified_subscribed)
    with assms r(1) obtain p where "jobIdAndMetaDerived s = Some p" "pinned_to p r"
      using unstopped_is_current by blast
    with r(2) show "\<exists>p. jobIdAndMetaDerived s = Some p \<and> pinned_value p x"
      using notified_pinned by blast
  qed
  ultimately show ?thesis by blast
qed

lemma project_callback_emitted:
  "jobIdAndMetaDerived s = Some p \<Longrightarrow> truthy s (pinned_input p) \<Longrightarrow>
     emitted (project_callback s) =
       emitted s @ (generation p, placeholder) #
         snd (resolve (now s) (jobsStore s)
            \<lparr>p_jobId = jobId p, p_cachedInput = pinned_input p,
             p_generation = generation p, p_stop = False,
             p_phase = Polling (now s + quiet_period)\<rparr>)"
  by (simp add: project_callback_def emit_all_eq emit_def Let_def split: prod.splits)

lemma project_sync_emits:
  "\<exists>vs. emitted (project_sync s) = emitted s @ vs \<and>
         (\<forall>x \<in> set vs. \<exists>p. jobIdAndMetaDerived s = Some p \<and> pinned_value p x)"
proof (cases "project_stop s" rule: guard_cases)
  case returns
  then show ?thesis by (simp add: project_sync_def)
next
  case (passes p)
  let ?t = "project_stop s"
  let ?r0 = "\<lparr>p_jobId = jobId p, p_cachedInput = pinned_input p,
             p_generation = generation p, p_stop = False,
             p_phase = Polling (now ?t + quiet_period)\<rparr>"
  have pin: "pinned_to p ?r0" by (simp add: pinned_to_def)
  have "emitted (project_sync s) =
      emitted s @ (generation p, placeholder) # snd (resolve (now ?t) (jobsStore ?t) ?r0)"
    using project_callback_emitted [OF passes] by (simp add: project_sync_def)
  moreover have "pinned_value p (generation p, placeholder)"
    by (simp add: pinned_value_def)
  moreover have "jobIdAndMetaDerived s = Some p" using passes(1) by simp
  ultimately show ?thesis
    using resolve_pinned [OF pin] by auto
qed

lemma step_emits:
  assumes "project_inv s"
  shows "\<exists>vs. emitted (step s e) = emitted s @ vs \<and>
           (\<forall>x \<in> set vs. \<exists>p. jobIdAndMetaDerived (step s e) = Some p \<and> pinned_value p x)"
proof (cases e)
  case (InputSet v)
  then show ?thesis by simp
next
  case (StatusSet st)
  then show ?thesis by simp
next
  case Tick
  have "project_inv (dispatch_timers (s\<lparr>now := now s + 1\<rparr>))"
    using assms by (simp add: project_inv_def project_pre_def)
  from project_timers_emits [OF this] show ?thesis using Tick by simp
next
  case (Resolved g j m)
  show ?thesis
  proof (cases "g < length (dispatch_runs s) \<and> phase (dispatch_runs s ! g) = Requesting")
    case False
    then have "resolved g j m s = s" by (auto simp: resolved_def)
    then show ?thesis using Resolved by simp
  next
    case True
    let ?s' = "s\<lparr>dispatch_runs := (dispatch_runs s)[g := (dispatch_runs s ! g)\<lparr>phase := Published j\<rparr>],
             jobIdAndMetaDerived :=
               Some \<lparr>jobId = j, pinned_input = run_input (dispatch_runs s ! g),
                     meta_json = m, generation = g\<rparr>\<rparr>"
    have "step s e = project_sync ?s'" using True Resolved by (simp add: resolved_def)
    then show ?thesis using project_sync_emits [of ?s'] by simp
  qed
next
  case (Rejected g msg)
  then show ?thesis by simp
next
  case (JobPut k j)
  then show ?thesis using job_put_emits [OF assms] by simp
next
  case JobsEmit
  then show ?thesis using project_sync_emits [of s] by simp
qed

section \<open>Order and history of the emissions\<close>

lemma sorted_map_const:
  "\<forall>x \<in> set xs. f x = (c::nat) \<Longrightarrow> sorted (map f xs)"
  by (induction xs) auto

lemma generation_mono:
  assumes "dispatch_inv s" "jobIdAndMetaDerived s = Some p"
  shows "\<exists>p'. jobIdAndMetaDerived (step s e) = Some p' \<and> generation p \<le> generation p'"
proof (cases e)
  case (Resolved g j m)
  show ?thesis
  proof (cases "g < length (dispatch_runs s) \<and> phase (dispatch_runs s ! g) = Requesting")
    case False
    then have "resolved g j m s = s" by (auto simp: resolved_def)
    then show ?thesis using Resolved assms by simp
  next
    case True
    then have "dispatch_cleanup s = Some g"
      using assms(1) by (simp add: requesting_is_current)
    then have "generation p \<le> g"
      using assms unfolding dispatch_inv_def by blast
    then show ?thesis using True Resolved by (simp add: resolved_def)
  qed
qed (use assms in simp_all)

lemma ordered_inv_step:
  assumes "dispatch_inv s" "project_inv s" "ordered_inv s"
  shows "ordered_inv (step s e)"
proof -
  obtain vs where vs: "emitted (step s e) = emitted s @ vs"
      "\<forall>x \<in> set vs. \<exists>p. jobIdAndMetaDerived (step s e) = Some p \<and> pinned_value p x"
    using step_emits [OF assms(2)] by blast
  have old: "\<forall>x \<in> set (emitted s). \<exists>p'. jobIdAndMetaDerived (step s e) = Some p' \<and> fst x \<le> generation p'"
  proof
    fix x assume "x \<in> set (emitted s)"
    then obtain p where p: "jobIdAndMetaDerived s = Some p" "fst x \<le> generation p"
      using assms(3) unfolding ordered_inv_def by blast
    from generation_mono [OF assms(1) p(1)] p(2)
    show "\<exists>p'. jobIdAndMetaDerived (step s e) = Some p' \<and> fst x \<le> generation p'"
      by (meson le_trans)
  qed
  have new: "\<forall>x \<in> set vs. \<exists>p'. jobIdAndMetaDerived (step s e) = Some p' \<and> fst x = generation p'"
    using vs(2) by (auto simp: pinned_value_def)
  have "\<exists>c. \<forall>x \<in> set vs. fst x = c"
    using new by (metis option.inject)
  then have "sorted (map fst vs)"
    using sorted_map_const by blast
  moreover have "\<forall>x \<in> set (emitted s). \<forall>y \<in> set vs. fst x \<le> fst y"
    using old new by (metis option.inject)
  ultimately have "sorted (map fst (emitted s @ vs))"
    using assms(3) by (auto simp: ordered_inv_def sorted_append)
  moreover have "\<forall>x \<in> set (emitted s @ vs). \<exists>p'. jobIdAndMetaDerived (step s e) = Some p' \<and> fst x \<le> generation p'"
    using old new by auto
  ultimately show ?thesis
    unfolding ordered_inv_def vs(1) by blast
qed

lemma cancelled_stable:
  "run_input (cancelled r) = run_input r"
  "phase r = Published j \<Longrightarrow> phase (cancelled r) = Published j"
  by (simp_all add: cancelled_def)

lemma timer_fired_stable:
  "run_input (timer_fired t r) = run_input r"
  "phase r = Published j \<Longrightarrow> phase (timer_fired t r) = Published j"
  by (simp_all add: timer_fired_def timer_due_def)

lemma dispatch_sync_stable:
  assumes "g < length (dispatch_runs s)"
  shows "g < length (dispatch_runs (dispatch_sync s)) \<and>
     run_input (dispatch_runs (dispatch_sync s) ! g) = run_input (dispatch_runs s ! g) \<and>
     (phase (dispatch_runs s ! g) = Published j \<longrightarrow>
        phase (dispatch_runs (dispatch_sync s) ! g) = Published j)"
  using assms
  by (auto simp: dispatch_sync_def dispatch_callback_def dispatch_stop_def nth_append
        nth_list_update cancelled_stable split: option.splits)

lemma published_stable:
  assumes "g < length (dispatch_runs s)"
  shows "g < length (dispatch_runs (step s e)) \<and>
     run_input (dispatch_runs (step s e) ! g) = run_input (dispatch_runs s ! g) \<and>
     (phase (dispatch_runs s ! g) = Published j \<longrightarrow>
        phase (dispatch_runs (step s e) ! g) = Published j)"
proof (cases e)
  case (InputSet v)
  then show ?thesis using dispatch_sync_stable [of g "s\<lparr>input_store := v\<rparr>" j] assms by simp
next
  case (StatusSet st)
  then show ?thesis
    using dispatch_sync_stable [of g "s\<lparr>compilationStatusStore := st\<rparr>" j] assms by simp
next
  case Tick
  then show ?thesis using assms
    by (simp add: dispatch_timers_def timer_fired_stable)
next
  case (Resolved g' j' m)
  then show ?thesis using assms
    by (auto simp: resolved_def nth_list_update)
next
  case (Rejected g' msg)
  then show ?thesis using assms
    by (auto simp: rejected_def nth_list_update)
next
  case (JobPut k r)
  then show ?thesis using assms by simp
next
  case JobsEmit
  then show ?thesis using assms by simp
qed

lemma history_inv_step:
  assumes "dispatch_inv s" "project_inv s" "history_inv s"
  shows "history_inv (step s e)"
proof -
  obtain vs where vs: "emitted (step s e) = emitted s @ vs"
      "\<forall>x \<in> set vs. \<exists>p. jobIdAndMetaDerived (step s e) = Some p \<and> pinned_value p x"
    using step_emits [OF assms(2)] by blast
  have dinv': "dispatch_inv (step s e)" using assms(1) by (rule dispatch_inv_step)
  let ?ok = "\<lambda>x. fst x < length (dispatch_runs (step s e)) \<and>
        (snd x = placeholder \<or>
         (outputState (snd x) = Current \<and>
          input (snd x) = Some (run_input (dispatch_runs (step s e) ! fst x)) \<and>
          (\<exists>j. phase (dispatch_runs (step s e) ! fst x) = Published j \<and> job (snd x) = Some j)))"
  have old: "?ok x" if "x \<in> set (emitted s)" for x
  proof -
    from that assms(3) have x: "fst x < length (dispatch_runs s)"
      "snd x = placeholder \<or>
         (outputState (snd x) = Current \<and>
          input (snd x) = Some (run_input (dispatch_runs s ! fst x)) \<and>
          (\<exists>j. phase (dispatch_runs s ! fst x) = Published j \<and> job (snd x) = Some j))"
      unfolding history_inv_def by blast+
    show ?thesis using x(2) published_stable [OF x(1), of e] by auto
  qed
  have new: "?ok x" if "x \<in> set vs" for x
  proof -
    from that vs(2) obtain p where p: "jobIdAndMetaDerived (step s e) = Some p" "pinned_value p x"
      by blast
    from dinv' p(1) have "generation p < length (dispatch_runs (step s e))"
      "phase (dispatch_runs (step s e) ! generation p) = Published (jobId p)"
      "run_input (dispatch_runs (step s e) ! generation p) = pinned_input p"
      unfolding dispatch_inv_def by blast+
    then show ?thesis using p(2) by (auto simp: pinned_value_def)
  qed
  have "?ok x" if "x \<in> set (emitted s @ vs)" for x
    using that old new by (cases "x \<in> set vs") simp_all
  then show ?thesis
    unfolding history_inv_def vs(1) by blast
qed

lemma binding_inv_step: "binding_inv s \<Longrightarrow> binding_inv (step s e)"
  by (simp add: binding_inv_def dispatch_inv_step project_inv_step ordered_inv_step
        history_inv_step)

lemma binding_inv_run: "binding_inv s \<Longrightarrow> binding_inv (run s es)"
  unfolding run_def
  by (induction es arbitrary: s) (simp_all add: binding_inv_step)

lemma binding_inv_init: "binding_inv (initializeIo b tr d st jobs)"
proof -
  have "emitted (initializeIo b tr d st jobs :: ('a, 'b, 'c) Binding) = []"
    by (simp add: initializeIo_def dispatch_callback_def)
  then show ?thesis
    by (simp add: binding_inv_def dispatch_inv_init project_inv_init ordered_inv_def
          history_inv_def)
qed

lemma run_append: "run s (es @ es') = run (run s es) es'"
  by (simp add: run_def)

section \<open>The projector invariant of the older variant\<close>

lemma legacy_resolve_fst_stop:
  "lp_stop (fst (legacy_resolve t jobs r)) = lp_stop r"
  "lp_jobId (fst (legacy_resolve t jobs r)) = lp_jobId r"
  by (simp_all add: legacy_resolve_def split: option.splits)

lemma legacy_poll_fired_fst:
  "lp_stop (fst (legacy_poll_fired t jobs r)) = lp_stop r"
  "lp_jobId (fst (legacy_poll_fired t jobs r)) = lp_jobId r"
  by (simp_all add: legacy_poll_fired_def legacy_resolve_fst_stop split: ProjectPhase.splits)

lemma legacy_poll_fired_stopped:
  "lp_stop r \<Longrightarrow> lp_phase r \<noteq> Subscribed \<Longrightarrow>
     lp_phase (fst (legacy_poll_fired t jobs r)) \<noteq> Subscribed \<and>
     snd (legacy_poll_fired t jobs r) = []"
  by (simp add: legacy_poll_fired_def split: ProjectPhase.splits)

lemma legacy_project_stop_pre:
  assumes "legacy_project_pre s"
  shows "\<forall>k. k < length (l_project_runs (legacy_project_stop s)) \<longrightarrow>
           lp_stop (l_project_runs (legacy_project_stop s) ! k) \<and>
           lp_phase (l_project_runs (legacy_project_stop s) ! k) \<noteq> Subscribed"
  using assms unfolding legacy_project_pre_def legacy_project_stop_def legacy_unsubscribed_def
  by (auto simp: nth_list_update split: option.splits ProjectPhase.splits)

lemma legacy_project_callback_new_run:
  "l_jobIdDerived s = Some k \<Longrightarrow>
     l_project_cleanup (legacy_project_callback s) = Some (length (l_project_runs s)) \<and>
     l_project_runs (legacy_project_callback s) =
       l_project_runs s @
         [fst (legacy_resolve (l_now s) (l_jobsStore s)
            \<lparr>lp_jobId = k, lp_stop = False, lp_phase = Polling (l_now s + quiet_period)\<rparr>)] \<and>
     l_jobIdDerived (legacy_project_callback s) = Some k"
  by (simp add: legacy_project_callback_def legacy_emit_all_eq split: prod.splits)

lemma legacy_project_inv_sync:
  assumes "legacy_project_pre s"
  shows "legacy_project_inv (legacy_project_sync s)"
proof (cases "l_jobIdDerived s")
  case None
  then have "legacy_project_sync s = (legacy_project_stop s)\<lparr>l_project_cleanup := None\<rparr>"
    by (simp add: legacy_project_sync_def legacy_project_callback_def)
  then show ?thesis
    using legacy_project_stop_pre [OF assms]
    by (simp add: legacy_project_inv_def legacy_project_pre_def)
next
  case (Some k)
  let ?t = "legacy_project_stop s"
  have jm: "l_jobIdDerived ?t = Some k" using Some by simp
  note cb = legacy_project_callback_new_run [OF jm]
  show ?thesis
    unfolding legacy_project_sync_def legacy_project_inv_def legacy_project_pre_def
    using legacy_project_stop_pre [OF assms] cb
    by (auto simp: nth_append legacy_resolve_fst_stop)
qed

lemma legacy_project_inv_timers:
  assumes "legacy_project_inv s"
  shows "legacy_project_inv (legacy_project_timers s)"
  using assms
  unfolding legacy_project_inv_def legacy_project_pre_def legacy_project_timers_def
  by (auto simp: legacy_emit_all_eq legacy_poll_fired_fst legacy_poll_fired_stopped)

lemma legacy_dispatch_sync_project:
  assumes "legacy_dispatch_sync s = Inr s'"
  shows "l_project_runs s' = l_project_runs s \<and> l_project_cleanup s' = l_project_cleanup s \<and>
         l_jobIdDerived s' = l_jobIdDerived s \<and> l_emitted s' = l_emitted s \<and>
         l_results s' = l_results s \<and> l_jobsStore s' = l_jobsStore s"
  using assms
  by (auto simp: legacy_dispatch_sync_def legacy_dispatch_stop_def legacy_dispatch_callback_def
        Let_def split: sum.splits option.splits if_splits LegacyPhase.splits)

lemma legacy_project_inv_step:
  assumes "legacy_project_inv s" "legacy_step s e = Inr s'"
  shows "legacy_project_inv s'"
proof (cases e)
  case (LInputSet v)
  with assms(2) have "legacy_dispatch_sync (s\<lparr>l_input_store := v\<rparr>) = Inr s'" by simp
  from legacy_dispatch_sync_project [OF this] assms(1)
  show ?thesis by (simp add: legacy_project_inv_def legacy_project_pre_def)
next
  case LTick
  have "legacy_project_inv (legacy_dispatch_timers (s\<lparr>l_now := l_now s + 1\<rparr>))"
    using assms(1)
    by (simp add: legacy_project_inv_def legacy_project_pre_def legacy_dispatch_timers_def)
  then have "legacy_project_inv
      (legacy_project_timers (legacy_dispatch_timers (s\<lparr>l_now := l_now s + 1\<rparr>)))"
    by (rule legacy_project_inv_timers)
  then show ?thesis using LTick assms(2) by auto
next
  case (LResolved g j)
  let ?s' = "s\<lparr>l_dispatch_runs :=
                 (l_dispatch_runs s)[g := (l_dispatch_runs s ! g)\<lparr>l_phase := LPublished j\<rparr>],
               l_jobIdDerived := Some j\<rparr>"
  have pre: "legacy_project_pre ?s'"
    using assms(1) by (simp add: legacy_project_inv_def legacy_project_pre_def)
  have same: "legacy_project_inv ?s'" if "l_jobIdDerived s = Some j"
    using assms(1) that by (simp add: legacy_project_inv_def legacy_project_pre_def)
  have "legacy_project_inv (legacy_resolved g j s)"
    using assms(1) same legacy_project_inv_sync [OF pre]
    by (simp add: legacy_resolved_def Let_def)
  then show ?thesis using LResolved assms(2) by auto
next
  case (LFailed g msg)
  have "legacy_project_inv (legacy_failed g msg s)"
    using assms(1)
    by (simp add: legacy_project_inv_def legacy_project_pre_def legacy_failed_def)
  then show ?thesis using LFailed assms(2) by auto
next
  case (LJobPut k j)
  have "legacy_project_inv (legacy_job_put k j s)"
    using assms(1)
    by (simp add: legacy_project_inv_def legacy_project_pre_def legacy_job_put_def
          legacy_emit_all_eq)
  then show ?thesis using LJobPut assms(2) by auto
next
  case LJobsEmit
  have "legacy_project_inv (legacy_project_sync s)"
    using assms(1) by (intro legacy_project_inv_sync) (simp add: legacy_project_inv_def)
  then show ?thesis using LJobsEmit assms(2) by auto
qed

lemma legacy_project_inv_run:
  assumes "legacy_project_inv s" "legacy_run s es = Inr s'"
  shows "legacy_project_inv s'"
  using assms
proof (induction es arbitrary: s)
  case Nil
  then show ?case by simp
next
  case (Cons e es)
  then show ?case
    by (auto split: sum.splits dest: legacy_project_inv_step)
qed

lemma legacy_project_inv_init: "legacy_project_inv (legacy_initializeIo b d jobs)"
  by (simp add: legacy_project_inv_def legacy_project_pre_def legacy_initializeIo_def
        legacy_dispatch_callback_def)


lemma legacy_job_subscriber_latest:
  "v \<in> set (legacy_job_subscriber r j) \<Longrightarrow> latestJobId v = Some (lp_jobId r)"
  by (auto simp: legacy_job_subscriber_def split: if_splits)

lemma legacy_resolve_latest:
  "v \<in> set (snd (legacy_resolve t jobs r)) \<Longrightarrow> latestJobId v = Some (lp_jobId r)"
  by (auto simp: legacy_resolve_def legacy_job_subscriber_latest split: option.splits)

lemma legacy_poll_fired_latest:
  "v \<in> set (snd (legacy_poll_fired t jobs r)) \<Longrightarrow>
     latestJobId v = Some (lp_jobId r) \<and> \<not> lp_stop r"
  by (auto simp: legacy_poll_fired_def legacy_resolve_latest
        split: ProjectPhase.splits if_splits)




section \<open>Which run a record write or a timer reaches\<close>

lemma concat_map_single:
  assumes "k < length xs" "\<forall>i. i < length xs \<longrightarrow> i \<noteq> k \<longrightarrow> f (xs ! i) = []"
  shows "concat (map f xs) = f (xs ! k)"
  using assms
proof (induction xs arbitrary: k)
  case Nil
  then show ?case by simp
next
  case (Cons a xs)
  show ?case
  proof (cases k)
    case 0
    have "f x = []" if "x \<in> set xs" for x
    proof -
      from that obtain i where "i < length xs" "xs ! i = x" by (auto simp: in_set_conv_nth)
      then show ?thesis using Cons.prems(2) [rule_format, of "Suc i"] 0 by simp
    qed
    then have "concat (map f xs) = []" by simp
    then show ?thesis using 0 by simp
  next
    case (Suc k')
    have a: "f a = []" using Cons.prems(2) [rule_format, of 0] Suc by simp
    have "concat (map f xs) = f (xs ! k')"
    proof (rule Cons.IH)
      show "k' < length xs" using Cons.prems(1) Suc by simp
      show "\<forall>i. i < length xs \<longrightarrow> i \<noteq> k' \<longrightarrow> f (xs ! i) = []"
        using Cons.prems(2) [rule_format, of "Suc i" for i] Suc by auto
    qed
    then show ?thesis using a Suc by simp
  qed
qed





section \<open>The same for the older variant\<close>







text \<open>
  C7, as amended. Every emitted Results with outputState \<open>Current\<close> carries in \<open>input\<close>
  the snapshot its dispatcher run captured and sent with the request, and in \<open>job\<close> the
  JobId that run published. The live Input cell is not read.
\<close>

theorem current_results_input_pinned:
  "\<forall>x \<in> set (emitted (run (initializeIo b tr d st jobs) es)).
     (outputState (snd x) = Current \<longrightarrow>
        fst x < length (dispatch_runs (run (initializeIo b tr d st jobs) es)) \<and>
        input (snd x) =
          Some (run_input (dispatch_runs (run (initializeIo b tr d st jobs) es) ! fst x)) \<and>
        (\<exists>j. phase (dispatch_runs (run (initializeIo b tr d st jobs) es) ! fst x) = Published j \<and>
             job (snd x) = Some j))"
proof -
  let ?s = "run (initializeIo b tr d st jobs) es"
  have "binding_inv ?s"
    by (rule binding_inv_run) (rule binding_inv_init)
  then have h: "history_inv ?s" by (simp add: binding_inv_def)
  show ?thesis
  proof
    fix x assume "x \<in> set (emitted ?s)"
    with h have x: "fst x < length (dispatch_runs ?s)"
      "snd x = placeholder \<or>
         (outputState (snd x) = Current \<and>
          input (snd x) = Some (run_input (dispatch_runs ?s ! fst x)) \<and>
          (\<exists>j. phase (dispatch_runs ?s ! fst x) = Published j \<and> job (snd x) = Some j))"
      unfolding history_inv_def by blast+
    from x show "outputState (snd x) = Current \<longrightarrow>
        fst x < length (dispatch_runs ?s) \<and>
        input (snd x) = Some (run_input (dispatch_runs ?s ! fst x)) \<and>
        (\<exists>j. phase (dispatch_runs ?s ! fst x) = Published j \<and> job (snd x) = Some j)"
      by (auto simp: placeholder_def)
  qed
qed

theorem current_results_input_pinned_witness:
  "emitted (run ready_binding
      (replicate 200 Tick @ [JobPut 7 running_job, Resolved 0 7 (), InputSet (Sample 1),
         JobPut 7 succeeded_job])) =
     [(0, placeholder),
      (0, \<lparr>input = Some (Sample 0), outputState = Current, output' = Some ''x'', referenceOutput = None,
           validation = Some CorrectTerminated, job = Some 7\<rparr>)] \<and>
   input_store (run ready_binding
      (replicate 200 Tick @ [JobPut 7 running_job, Resolved 0 7 (), InputSet (Sample 1),
         JobPut 7 succeeded_job])) = Sample 1 \<and>
   input (snd (last (emitted (run ready_binding
      (replicate 200 Tick @ [JobPut 7 running_job, Resolved 0 7 (), InputSet (Sample 1),
         JobPut 7 succeeded_job]))))) =
     Some (run_input (dispatch_runs (run ready_binding
      (replicate 200 Tick @ [JobPut 7 running_job, Resolved 0 7 (), InputSet (Sample 1),
         JobPut 7 succeeded_job])) ! 0))"
proof -
  let ?es = "replicate 200 Tick @ [JobPut 7 running_job, Resolved 0 7 (), InputSet (Sample 1),
         JobPut 7 succeeded_job]"
  let ?s = "run ready_binding ?es"
  have a: "emitted ?s =
     [(0, placeholder),
      (0, \<lparr>input = Some (Sample 0), outputState = Current, output' = Some ''x'', referenceOutput = None,
           validation = Some CorrectTerminated, job = Some 7\<rparr>)] \<and>
     input_store ?s = Sample 1"
    by code_simp
  then have mem: "last (emitted ?s) \<in> set (emitted ?s)"
    and cur: "outputState (snd (last (emitted ?s))) = Current"
    and gen: "fst (last (emitted ?s)) = 0"
    by simp_all
  from current_results_input_pinned [of True "\<lambda>_. True" "Sample 0" "Some ''Succeeded''" Map.empty ?es,
      folded ready_binding_def, rule_format, OF mem] cur gen
  have "input (snd (last (emitted ?s))) = Some (run_input (dispatch_runs ?s ! 0))"
    by simp
  with a show ?thesis by blast
qed

text \<open>
  C7 as stated fails for the placeholder: the first value emitted for job 7, which was
  submitted for the Input \<open>Sample 0\<close>, has no \<open>input\<close> field.
\<close>

theorem placeholder_without_input_counterexample:
  "cachedInput (run ready_binding (replicate 200 Tick @ [Resolved 0 7 ()])) = Some (Sample 0) \<and>
   map (input \<circ> snd) (emitted (run ready_binding (replicate 200 Tick @ [Resolved 0 7 ()])))
     = [None]"
  by code_simp

section \<open>The claims on submission errors and failed jobs\<close>

text \<open>
  C4, as amended. A job-creation request rejected with a transport error ends its run
  and writes no store: no Results value is emitted, the results store and the published
  dispatch stay what they were. The same holds in the older variant.
\<close>

theorem submission_error_emits_nothing:
  "results (step s (Rejected g msg)) = results s \<and>
   emitted (step s (Rejected g msg)) = emitted s \<and>
   jobIdAndMetaDerived (step s (Rejected g msg)) = jobIdAndMetaDerived s \<and>
   project_runs (step s (Rejected g msg)) = project_runs s \<and>
   (g < length (dispatch_runs s) \<and> phase (dispatch_runs s ! g) = Requesting \<longrightarrow>
      phase (dispatch_runs (step s (Rejected g msg)) ! g) = Ended) \<and>
   legacy_step ls (LFailed g msg) = Inr (legacy_failed g msg ls) \<and>
   l_results (legacy_failed g msg ls) = l_results ls \<and>
   l_emitted (legacy_failed g msg ls) = l_emitted ls \<and>
   l_jobIdDerived (legacy_failed g msg ls) = l_jobIdDerived ls"
  by (simp add: rejected_def legacy_failed_def)

theorem submission_error_emits_nothing_witness:
  "phase (dispatch_runs (run ready_binding (replicate 200 Tick)) ! 0) = Requesting \<and>
   phase (dispatch_runs (step (run ready_binding (replicate 200 Tick))
            (Rejected 0 ''network error'')) ! 0) = Ended \<and>
   results (step (run ready_binding (replicate 200 Tick)) (Rejected 0 ''network error'')) =
     results (run ready_binding (replicate 200 Tick))"
proof -
  let ?s = "run ready_binding (replicate 200 Tick)"
  have a: "0 < length (dispatch_runs ?s) \<and> phase (dispatch_runs ?s ! 0) = Requesting"
    by code_simp
  from submission_error_emits_nothing [of ?s 0 "''network error''"] a
  show ?thesis by blast
qed

text \<open>
  C4 as stated fails: after the request of the first dispatch is rejected, the results
  store still holds the initial placeholder, not a Failure-shaped value.
\<close>

theorem submission_error_counterexample:
  "phase (dispatch_runs (run ready_binding (replicate 200 Tick)) ! 0) = Requesting \<and>
   results (run ready_binding (replicate 200 Tick @ [Rejected 0 ''network error''])) =
     placeholder \<and>
   results (run ready_binding (replicate 200 Tick @ [Rejected 0 ''network error''])) \<noteq>
     \<lparr>input = None, outputState = Current, output' = None, referenceOutput = None,
      validation = Some (Failure ''network error''), job = None\<rparr> \<and>
   emitted (run ready_binding (replicate 200 Tick @ [Rejected 0 ''network error''])) = []"
  by code_simp

text \<open>
  The \<open>Failed\<close> branch of io.ts. When the record of the job the projector is subscribed
  to becomes \<open>Failed\<close>, the projector emits exactly one value: outputState \<open>Current\<close>,
  output and referenceOutput null, validation \<open>Failure\<close> of the record's \<open>stdout\<close>, job
  the subscribed job store, input the pinned Input.
\<close>

theorem failed_job_emits_failure:
  assumes "s = run (initializeIo b tr d st jobs) es"
    and "project_cleanup s = Some k"
    and "p_phase (project_runs s ! k) = Subscribed"
    and "p_jobId (project_runs s ! k) = j"
    and "state rec = ''Failed''"
  shows "emitted (step s (JobPut j rec)) =
           emitted s @
             [(p_generation (project_runs s ! k),
               \<lparr>input = cachedInput s, outputState = Current, output' = None,
                referenceOutput = None, validation = Some (Failure (stdout rec)),
                job = Some j\<rparr>)] \<and>
         results (step s (JobPut j rec)) =
           \<lparr>input = cachedInput s, outputState = Current, output' = None,
            referenceOutput = None, validation = Some (Failure (stdout rec)), job = Some j\<rparr> \<and>
         jobIdDerived s = Some j"
proof -
  have "binding_inv s"
    unfolding assms(1) by (rule binding_inv_run) (rule binding_inv_init)
  then have pinv: "project_inv s" by (simp add: binding_inv_def)
  let ?r = "project_runs s ! k"
  from pinv assms(2) have k: "k < length (project_runs s)"
    and others: "\<forall>i. i < length (project_runs s) \<longrightarrow> i \<noteq> k \<longrightarrow>
        p_phase (project_runs s ! i) \<noteq> Subscribed"
    unfolding project_inv_def project_pre_def by auto
  from pinv assms(2) obtain p where p: "jobIdAndMetaDerived s = Some p" "pinned_to p ?r"
    unfolding project_inv_def by blast
  have "concat (map (notified j rec) (project_runs s)) = notified j rec ?r"
    using k others by (intro concat_map_single) (auto simp: notified_def)
  moreover have "notified j rec ?r =
      [(p_generation ?r,
        \<lparr>input = Some (p_cachedInput ?r), outputState = Current, output' = None,
         referenceOutput = None, validation = Some (Failure (stdout rec)), job = Some j\<rparr>)]"
    using assms(3,4,5) by (simp add: notified_def job_subscriber_def)
  moreover have "cachedInput s = Some (p_cachedInput ?r)" "jobIdDerived s = Some j"
    using p assms(4) by (simp_all add: cachedInput_def jobIdDerived_def pinned_to_def)
  ultimately show ?thesis
    by (simp add: job_put_def emit_all_eq)
qed

theorem failed_job_emits_failure_witness:
  "project_cleanup (run ready_binding
      (replicate 200 Tick @ [JobPut 7 running_job, Resolved 0 7 ()])) = Some 0 \<and>
   p_phase (project_runs (run ready_binding
      (replicate 200 Tick @ [JobPut 7 running_job, Resolved 0 7 ()])) ! 0) = Subscribed \<and>
   results (step (run ready_binding
      (replicate 200 Tick @ [JobPut 7 running_job, Resolved 0 7 ()])) (JobPut 7 failed_job)) =
     \<lparr>input = Some (Sample 0), outputState = Current, output' = None, referenceOutput = None,
      validation = Some (Failure ''boom''), job = Some 7\<rparr>"
proof -
  let ?es = "replicate 200 Tick @ [JobPut 7 running_job, Resolved 0 7 ()]"
  let ?s = "run ready_binding ?es"
  have a: "project_cleanup ?s = Some 0 \<and> p_phase (project_runs ?s ! 0) = Subscribed \<and>
      p_jobId (project_runs ?s ! 0) = 7 \<and> cachedInput ?s = Some (Sample 0)"
    by code_simp
  have b: "state failed_job = ''Failed''" "stdout failed_job = ''boom''"
    by (simp_all add: failed_job_def)
  from failed_job_emits_failure [of ?s True "\<lambda>_. True" "Sample 0" "Some ''Succeeded''" Map.empty ?es 0 7 failed_job]
    a b
  show ?thesis by (simp add: ready_binding_def)
qed

text \<open>
  C3 in the older variant, whose subscriber has no \<open>Failed\<close> branch: the projector is
  subscribed to job 7, the record becomes \<open>Failed\<close>, and nothing is emitted after the
  placeholder. Results keeps outputState \<open>None\<close> and a null validation.
\<close>

theorem legacy_failed_job_emits_nothing:
  "(case legacy_run legacy_binding
           (replicate 200 LTick @ [LJobPut 7 running_job, LResolved 0 7, LJobPut 7 failed_job]) of
      Inl err \<Rightarrow> False
    | Inr ls \<Rightarrow>
        l_project_cleanup ls = Some 0 \<and>
        lp_phase (l_project_runs ls ! 0) = Subscribed \<and>
        map_option state (l_jobsStore ls 7) = Some ''Failed'' \<and>
        l_emitted ls = [legacy_placeholder 7] \<and>
        l_results ls = legacy_placeholder 7 \<and>
        l_validation (l_results ls) = None)"
  by code_simp

section \<open>The claims on the placeholder and on registry notifications\<close>

lemma resolve_absent:
  "jobs (p_jobId r) = None \<Longrightarrow> snd (resolve t jobs r) = []"
  by (simp add: resolve_def)

lemma resolve_present:
  "jobs (p_jobId r) = Some rec \<Longrightarrow> p_phase (fst (resolve t jobs r)) = Subscribed"
  by (simp add: resolve_def)

lemma project_callback_results:
  "jobIdAndMetaDerived s = Some p \<Longrightarrow> truthy s (pinned_input p) \<Longrightarrow>
     jobsStore s (jobId p) = None \<Longrightarrow> results (project_callback s) = placeholder"
  by (simp add: project_callback_def emit_all_eq emit_def Let_def resolve_def split: prod.splits)

lemma resolve_snd:
  "snd (resolve t jobs r) =
     (case jobs (p_jobId r) of None \<Rightarrow> []
      | Some rec \<Rightarrow> map (Pair (p_generation r)) (job_subscriber r rec))"
  by (simp add: resolve_def split: option.splits)

lemma legacy_resolve_snd:
  "snd (legacy_resolve t jobs r) =
     (case jobs (lp_jobId r) of None \<Rightarrow> [] | Some rec \<Rightarrow> legacy_job_subscriber r rec)"
  by (simp add: legacy_resolve_def split: option.splits)

lemma legacy_resolve_absent:
  "jobs (lp_jobId r) = None \<Longrightarrow> snd (legacy_resolve t jobs r) = []"
  by (simp add: legacy_resolve_def)

lemma legacy_project_callback_emitted:
  "l_jobIdDerived s = Some k \<Longrightarrow>
     l_emitted (legacy_project_callback s) =
       l_emitted s @ legacy_placeholder k #
         snd (legacy_resolve (l_now s) (l_jobsStore s)
            \<lparr>lp_jobId = k, lp_stop = False, lp_phase = Polling (l_now s + quiet_period)\<rparr>)"
  by (simp add: legacy_project_callback_def legacy_emit_all_eq split: prod.splits)

lemma legacy_project_callback_results:
  "l_jobIdDerived s = Some k \<Longrightarrow> l_jobsStore s k = None \<Longrightarrow>
     l_results (legacy_project_callback s) = legacy_placeholder k"
  by (simp add: legacy_project_callback_def legacy_emit_all_eq legacy_resolve_def
        split: prod.splits)

text \<open>
  C8, as amended. When the request of a dispatch resolves and the Input it was submitted
  for is truthy, the first value the projector of io.ts sets is the placeholder
  (outputState \<open>None\<close>, output, referenceOutput, validation and job null, no input),
  before the job record is looked up; nothing follows it while the record is not
  visible, and with the record visible what follows is what the subscriber makes of the
  record. When that Input is falsy the callback returns at the guard of line 87: nothing
  is set, Results keeps its value and no run is started.

  The older variant has no such guard. The first value it sets for a resolved dispatch
  is not that placeholder: it has the four fields outputState \<open>None\<close>, output,
  referenceOutput and validation null, and \<open>latestJobId\<close> set to the new JobId.
\<close>

theorem placeholder_emitted_first:
  "(g < length (dispatch_runs s) \<and> phase (dispatch_runs s ! g) = Requesting \<and>
    truthy s (run_input (dispatch_runs s ! g)) \<longrightarrow>
      (\<exists>r. p_jobId r = j \<and> p_cachedInput r = run_input (dispatch_runs s ! g) \<and>
           emitted (step s (Resolved g j m)) =
             emitted s @ (g, placeholder) #
               (case jobsStore s j of None \<Rightarrow> []
                | Some rec \<Rightarrow> map (Pair g) (job_subscriber r rec))) \<and>
      (jobsStore s j = None \<longrightarrow> results (step s (Resolved g j m)) = placeholder)) \<and>
   (g < length (dispatch_runs s) \<and> phase (dispatch_runs s ! g) = Requesting \<and>
    \<not> truthy s (run_input (dispatch_runs s ! g)) \<longrightarrow>
      emitted (step s (Resolved g j m)) = emitted s \<and>
      results (step s (Resolved g j m)) = results s \<and>
      project_cleanup (step s (Resolved g j m)) = None \<and>
      jobIdDerived (step s (Resolved g j m)) = Some j) \<and>
   (placeholder :: ('i, 'o) Results) =
      \<lparr>input = None, outputState = NoneState, output' = None, referenceOutput = None,
       validation = None, job = None\<rparr> \<and>
   (g' < length (l_dispatch_runs ls) \<and> l_phase (l_dispatch_runs ls ! g') = LRequesting \<and>
    l_jobIdDerived ls \<noteq> Some j' \<longrightarrow>
      (\<exists>r. lp_jobId r = j' \<and>
           l_emitted (legacy_resolved g' j' ls) =
             l_emitted ls @ legacy_placeholder j' #
               (case l_jobsStore ls j' of None \<Rightarrow> []
                | Some rec \<Rightarrow> legacy_job_subscriber r rec)) \<and>
      (l_jobsStore ls j' = None \<longrightarrow> l_results (legacy_resolved g' j' ls) = legacy_placeholder j')) \<and>
   (legacy_placeholder j' :: 'o LegacyResults) =
      \<lparr>l_outputState = NoneState, l_output = None, l_referenceOutput = None,
       l_validation = None, latestJobId = Some j'\<rparr>"
proof -
  let ?p = "\<lparr>jobId = j, pinned_input = run_input (dispatch_runs s ! g),
                   meta_json = m, generation = g\<rparr>"
  let ?s' = "s\<lparr>dispatch_runs := (dispatch_runs s)[g := (dispatch_runs s ! g)\<lparr>phase := Published j\<rparr>],
           jobIdAndMetaDerived := Some ?p\<rparr>"
  let ?t = "project_stop ?s'"
  have jm: "jobIdAndMetaDerived ?t = Some ?p" by simp
  have js: "jobsStore ?t = jobsStore s" by simp
  have fr: "emitted ?t = emitted s" "results ?t = results s" "truthy ?t = truthy s"
    by simp_all
  have a: "(\<exists>r. p_jobId r = j \<and> p_cachedInput r = run_input (dispatch_runs s ! g) \<and>
           emitted (step s (Resolved g j m)) =
             emitted s @ (g, placeholder) #
               (case jobsStore s j of None \<Rightarrow> []
                | Some rec \<Rightarrow> map (Pair g) (job_subscriber r rec))) \<and>
      (jobsStore s j = None \<longrightarrow> results (step s (Resolved g j m)) = placeholder)"
    if req: "g < length (dispatch_runs s) \<and> phase (dispatch_runs s ! g) = Requesting \<and>
      truthy s (run_input (dispatch_runs s ! g))"
  proof -
    let ?r0 = "\<lparr>p_jobId = j, p_cachedInput = run_input (dispatch_runs s ! g),
        p_generation = g, p_stop = False, p_phase = Polling (now s + quiet_period)\<rparr>"
    have st: "step s (Resolved g j m) = project_callback ?t"
      using req by (simp add: resolved_def project_sync_def)
    have tr: "truthy ?t (pinned_input ?p)" using req by simp
    have em: "emitted (step s (Resolved g j m)) =
        emitted s @ (g, placeholder) #
          (case jobsStore s j of None \<Rightarrow> []
           | Some rec \<Rightarrow> map (Pair g) (job_subscriber ?r0 rec))"
      unfolding st using project_callback_emitted [OF jm tr]
      by (simp add: resolve_snd split: option.splits)
    have re: "results (step s (Resolved g j m)) = placeholder" if "jobsStore s j = None"
      unfolding st using project_callback_results [OF jm tr] that by simp
    have "p_jobId ?r0 = j \<and> p_cachedInput ?r0 = run_input (dispatch_runs s ! g)" by simp
    with em re show ?thesis by blast
  qed
  have b: "emitted (step s (Resolved g j m)) = emitted s \<and>
      results (step s (Resolved g j m)) = results s \<and>
      project_cleanup (step s (Resolved g j m)) = None \<and>
      jobIdDerived (step s (Resolved g j m)) = Some j"
    if req: "g < length (dispatch_runs s) \<and> phase (dispatch_runs s ! g) = Requesting \<and>
      \<not> truthy s (run_input (dispatch_runs s ! g))"
  proof -
    have st: "step s (Resolved g j m) = project_callback ?t"
      using req by (simp add: resolved_def project_sync_def)
    have tr: "\<not> truthy ?t (pinned_input ?p)" using req by simp
    show ?thesis
      unfolding st project_callback_falsy [OF jm tr]
      by (simp add: jobIdDerived_def)
  qed
  have c: "(\<exists>r. lp_jobId r = j' \<and>
           l_emitted (legacy_resolved g' j' ls) =
             l_emitted ls @ legacy_placeholder j' #
               (case l_jobsStore ls j' of None \<Rightarrow> []
                | Some rec \<Rightarrow> legacy_job_subscriber r rec)) \<and>
      (l_jobsStore ls j' = None \<longrightarrow> l_results (legacy_resolved g' j' ls) = legacy_placeholder j')"
    if req: "g' < length (l_dispatch_runs ls) \<and> l_phase (l_dispatch_runs ls ! g') = LRequesting \<and>
      l_jobIdDerived ls \<noteq> Some j'"
  proof -
    let ?s' = "ls\<lparr>l_dispatch_runs :=
                 (l_dispatch_runs ls)[g' := (l_dispatch_runs ls ! g')\<lparr>l_phase := LPublished j'\<rparr>],
               l_jobIdDerived := Some j'\<rparr>"
    let ?t = "legacy_project_stop ?s'"
    let ?r0 = "\<lparr>lp_jobId = j', lp_stop = False, lp_phase = Polling (l_now ls + quiet_period)\<rparr>"
    have st: "legacy_resolved g' j' ls = legacy_project_callback ?t"
      using req by (simp add: legacy_resolved_def legacy_project_sync_def Let_def)
    have jm: "l_jobIdDerived ?t = Some j'" by simp
    have js: "l_jobsStore ?t = l_jobsStore ls" by simp
    have em: "l_emitted (legacy_resolved g' j' ls) =
        l_emitted ls @ legacy_placeholder j' #
          (case l_jobsStore ls j' of None \<Rightarrow> [] | Some rec \<Rightarrow> legacy_job_subscriber ?r0 rec)"
      unfolding st using legacy_project_callback_emitted [OF jm]
      by (simp add: js legacy_resolve_snd split: option.splits)
    have re: "l_results (legacy_resolved g' j' ls) = legacy_placeholder j'"
      if "l_jobsStore ls j' = None"
      unfolding st using legacy_project_callback_results [OF jm] that by (simp add: js)
    have "lp_jobId ?r0 = j'" by simp
    with em re show ?thesis by blast
  qed
  from a b c show ?thesis
    by (simp add: placeholder_def legacy_placeholder_def)
qed

theorem placeholder_emitted_first_witness:
  "phase (dispatch_runs (run ready_binding (replicate 200 Tick)) ! 0) = Requesting \<and>
   emitted (step (run ready_binding (replicate 200 Tick)) (Resolved 0 7 ())) =
     [(0, placeholder)] \<and>
   results (step (run ready_binding (replicate 200 Tick)) (Resolved 0 7 ())) = placeholder \<and>
   emitted (step (run ready_binding (replicate 200 Tick @ [JobPut 7 succeeded_job]))
       (Resolved 0 7 ())) =
     [(0, placeholder),
      (0, \<lparr>input = Some (Sample 0), outputState = Current, output' = Some ''x'', referenceOutput = None,
           validation = Some CorrectTerminated, job = Some 7\<rparr>)] \<and>
   (\<exists>ls. legacy_run legacy_binding (replicate 200 LTick) = Inr ls \<and>
      l_emitted ls = [] \<and>
      l_emitted (legacy_resolved 0 7 ls) = [legacy_placeholder 7] \<and>
      l_results (legacy_resolved 0 7 ls) = legacy_placeholder 7)"
proof -
  let ?u = "run ready_binding (replicate 200 Tick)"
  let ?s = "run ready_binding (replicate 200 Tick @ [JobPut 7 succeeded_job])"
  have a: "0 < length (dispatch_runs ?u) \<and> phase (dispatch_runs ?u ! 0) = Requesting \<and>
      truthy ?u (run_input (dispatch_runs ?u ! 0))"
    "jobsStore ?u 7 = None" "emitted ?u = []"
    by code_simp+
  have b: "0 < length (dispatch_runs ?s) \<and> phase (dispatch_runs ?s ! 0) = Requesting \<and>
      truthy ?s (run_input (dispatch_runs ?s ! 0))"
    "jobsStore ?s 7 = Some succeeded_job" "emitted ?s = []"
    "run_input (dispatch_runs ?s ! 0) = Sample 0"
    by code_simp+
  have "case legacy_run legacy_binding (replicate 200 LTick) of
          Inl err \<Rightarrow> False
        | Inr ls \<Rightarrow> 0 < length (l_dispatch_runs ls) \<and>
            l_phase (l_dispatch_runs ls ! 0) = LRequesting \<and> l_jobIdDerived ls = None \<and>
            l_jobsStore ls 7 = None \<and> l_emitted ls = []"
    by code_simp
  then obtain ls where ls: "legacy_run legacy_binding (replicate 200 LTick) = Inr ls"
      "0 < length (l_dispatch_runs ls) \<and> l_phase (l_dispatch_runs ls ! 0) = LRequesting \<and>
       l_jobIdDerived ls \<noteq> Some 7"
      "l_jobsStore ls 7 = None" "l_emitted ls = []"
    by (auto split: sum.splits)
  note t0 = placeholder_emitted_first [of 0 ?u 7 "()" 0 ls 7]
  note t1 = placeholder_emitted_first [of 0 ?s 7 "()" 0 ls 7]
  from t0 a have c: "emitted (step ?u (Resolved 0 7 ())) = [(0, placeholder)] \<and>
      results (step ?u (Resolved 0 7 ())) = placeholder"
    by (auto simp del: step.simps)
  from t1 b have d: "emitted (step ?s (Resolved 0 7 ())) =
     [(0, placeholder),
      (0, \<lparr>input = Some (Sample 0), outputState = Current, output' = Some ''x'', referenceOutput = None,
           validation = Some CorrectTerminated, job = Some 7\<rparr>)]"
    by (auto simp del: step.simps
          simp: job_subscriber_def succeeded_job_def job_output_def job_reference_output_def
            job_validation_def)
  from t0 ls have e: "l_emitted (legacy_resolved 0 7 ls) = [legacy_placeholder 7] \<and>
      l_results (legacy_resolved 0 7 ls) = legacy_placeholder 7"
    by auto
  from a c d e ls show ?thesis by blast
qed

text \<open>
  C8 as stated fails. In io.ts the Inputs are numbers: job 7 of the Input 1 has
  succeeded and Results is \<open>Current\<close>; the Input is set to 0 and its request resolves
  with job 8. The callback returns at the guard: no placeholder is set and Results stays
  the \<open>Current\<close> value of job 7. In the older variant the value set when the request
  resolves with job 7 has \<open>latestJobId\<close> 7, not a null job.
\<close>

theorem placeholder_counterexample:
  "phase (dispatch_runs (run numeric_binding
      (replicate 200 Tick @ [JobPut 7 succeeded_job, Resolved 0 7 (), InputSet 0] @
       replicate 200 Tick)) ! 1) = Requesting \<and>
   submissions (run numeric_binding
      (replicate 200 Tick @ [JobPut 7 succeeded_job, Resolved 0 7 (), InputSet 0] @
       replicate 200 Tick)) = [1, 0] \<and>
   jobIdDerived (run numeric_binding
      (replicate 200 Tick @ [JobPut 7 succeeded_job, Resolved 0 7 (), InputSet 0] @
       replicate 200 Tick @ [Resolved 1 8 ()])) = Some 8 \<and>
   emitted (run numeric_binding
      (replicate 200 Tick @ [JobPut 7 succeeded_job, Resolved 0 7 (), InputSet 0] @
       replicate 200 Tick @ [Resolved 1 8 ()])) =
   emitted (run numeric_binding
      (replicate 200 Tick @ [JobPut 7 succeeded_job, Resolved 0 7 (), InputSet 0] @
       replicate 200 Tick)) \<and>
   results (run numeric_binding
      (replicate 200 Tick @ [JobPut 7 succeeded_job, Resolved 0 7 (), InputSet 0] @
       replicate 200 Tick @ [Resolved 1 8 ()])) =
     \<lparr>input = Some 1, outputState = Current, output' = Some ''x'', referenceOutput = None,
      validation = Some CorrectTerminated, job = Some 7\<rparr> \<and>
   (case legacy_run legacy_binding (replicate 200 LTick @ [LResolved 0 7]) of
      Inl err \<Rightarrow> False
    | Inr ls \<Rightarrow>
        l_emitted ls =
          [\<lparr>l_outputState = NoneState, l_output = None, l_referenceOutput = None,
            l_validation = None, latestJobId = Some 7\<rparr>])"
  by code_simp


lemma project_stop_length [simp]:
  "length (project_runs (project_stop s)) = length (project_runs s)"
  by (simp add: project_stop_def split: option.splits)


lemma legacy_project_stop_length [simp]:
  "length (l_project_runs (legacy_project_stop s)) = length (l_project_runs s)"
  by (simp add: legacy_project_stop_def split: option.splits)


lemma legacy_resolve_fst:
  "lp_stop (fst (legacy_resolve t jobs r)) = lp_stop r"
  "lp_jobId (fst (legacy_resolve t jobs r)) = lp_jobId r"
  by (simp_all add: legacy_resolve_def split: option.splits)

lemma legacy_project_stop_submissions [simp]:
  "l_submissions (legacy_project_stop s) = l_submissions s"
  by (simp add: legacy_project_stop_def split: option.splits)

lemma job_subscriber_phase [simp]:
  "job_subscriber (r\<lparr>p_phase := x\<rparr>) rec = job_subscriber r rec"
  by (simp add: job_subscriber_def)

lemma legacy_job_subscriber_phase [simp]:
  "legacy_job_subscriber (r\<lparr>lp_phase := x\<rparr>) rec = legacy_job_subscriber r rec"
  by (simp add: legacy_job_subscriber_def)





section \<open>The claim on the poll loop\<close>

lemma run_ticks_Suc: "run s (replicate (Suc n) Tick) = run (step s Tick) (replicate n Tick)"
  by (simp add: run_def)

lemma poll_absent_tick:
  assumes "project_inv s" "project_cleanup s = Some k"
    "p_phase (project_runs s ! k) = Polling dl"
    "jobsStore s (p_jobId (project_runs s ! k)) = None"
  shows "project_cleanup (step s Tick) = Some k \<and>
         (\<exists>dl'. p_phase (project_runs (step s Tick) ! k) = Polling dl') \<and>
         p_jobId (project_runs (step s Tick) ! k) = p_jobId (project_runs s ! k) \<and>
         jobsStore (step s Tick) = jobsStore s \<and>
         emitted (step s Tick) = emitted s \<and> results (step s Tick) = results s"
proof -
  let ?s1 = "dispatch_timers (s\<lparr>now := now s + 1\<rparr>)"
  let ?r = "project_runs s ! k"
  from assms(1,2) have k: "k < length (project_runs s)" and unstopped: "\<not> p_stop ?r"
    and others: "\<forall>i. i < length (project_runs s) \<longrightarrow> i \<noteq> k \<longrightarrow> p_stop (project_runs s ! i)"
    unfolding project_inv_def project_pre_def by auto
  have none: "snd (poll_fired (now ?s1) (jobsStore ?s1) r) = []" if "r \<in> set (project_runs s)" for r
  proof (cases "p_stop r")
    case True
    then show ?thesis using poll_fired_unstopped [of _ "now ?s1" "jobsStore ?s1" r]
      by (cases "snd (poll_fired (now ?s1) (jobsStore ?s1) r)") auto
  next
    case False
    from that obtain i where i: "i < length (project_runs s)" "project_runs s ! i = r"
      by (auto simp: in_set_conv_nth)
    with False others have "i = k" by blast
    with i assms(4) have "jobsStore s (p_jobId r) = None" by simp
    then show ?thesis
      by (simp add: poll_fired_def resolve_def split: ProjectPhase.splits)
  qed
  then have vs: "concat (map (\<lambda>r. snd (poll_fired (now ?s1) (jobsStore ?s1) r))
      (project_runs ?s1)) = []"
    by simp
  have ph: "\<exists>dl'. p_phase (fst (poll_fired (now ?s1) (jobsStore ?s1) ?r)) = Polling dl'"
    using assms(3,4) unstopped
    by (simp add: poll_fired_def resolve_def)
  have st: "step s Tick = project_timers ?s1" by simp
  show ?thesis
    unfolding st project_timers_def vs
    using k ph assms(2) by (simp add: emit_all_eq poll_fired_fst)
qed

lemma poll_absent_ticks:
  assumes "project_inv s" "project_cleanup s = Some k"
    "p_phase (project_runs s ! k) = Polling dl"
    "jobsStore s (p_jobId (project_runs s ! k)) = None"
  shows "project_cleanup (run s (replicate n Tick)) = Some k \<and>
         (\<exists>dl'. p_phase (project_runs (run s (replicate n Tick)) ! k) = Polling dl') \<and>
         emitted (run s (replicate n Tick)) = emitted s \<and>
         results (run s (replicate n Tick)) = results s"
  using assms
proof (induction n arbitrary: s dl)
  case 0
  then show ?case by (simp add: run_def)
next
  case (Suc n)
  note t = poll_absent_tick [OF Suc.prems]
  from t obtain dl' where dl': "p_phase (project_runs (step s Tick) ! k) = Polling dl'"
    by blast
  have inv': "project_inv (step s Tick)" using Suc.prems(1) by (rule project_inv_step)
  have abs': "jobsStore (step s Tick) (p_jobId (project_runs (step s Tick) ! k)) = None"
    using t Suc.prems(4) by simp
  have cl': "project_cleanup (step s Tick) = Some k" using t by blast
  have eq: "emitted (step s Tick) = emitted s" "results (step s Tick) = results s"
    using t by blast+
  from Suc.IH [OF inv' cl' dl' abs']
  show ?case unfolding run_ticks_Suc eq .
qed

lemma legacy_dispatch_timers_frame [simp]:
  "l_project_runs (legacy_dispatch_timers s) = l_project_runs s"
  "l_jobsStore (legacy_dispatch_timers s) = l_jobsStore s"
  "l_project_cleanup (legacy_dispatch_timers s) = l_project_cleanup s"
  "l_emitted (legacy_dispatch_timers s) = l_emitted s"
  "l_results (legacy_dispatch_timers s) = l_results s"
  "l_jobIdDerived (legacy_dispatch_timers s) = l_jobIdDerived s"
  "l_now (legacy_dispatch_timers s) = l_now s"
  by (simp_all add: legacy_dispatch_timers_def)

lemma legacy_poll_absent_tick:
  assumes "legacy_project_inv s" "l_project_cleanup s = Some k"
    "lp_phase (l_project_runs s ! k) = Polling dl"
    "l_jobsStore s (lp_jobId (l_project_runs s ! k)) = None"
  shows "\<exists>s'. legacy_step s LTick = Inr s' \<and> l_project_cleanup s' = Some k \<and>
         (\<exists>dl'. lp_phase (l_project_runs s' ! k) = Polling dl') \<and>
         lp_jobId (l_project_runs s' ! k) = lp_jobId (l_project_runs s ! k) \<and>
         l_jobsStore s' = l_jobsStore s \<and>
         l_emitted s' = l_emitted s \<and> l_results s' = l_results s"
proof -
  let ?s1 = "legacy_dispatch_timers (s\<lparr>l_now := l_now s + 1\<rparr>)"
  let ?r = "l_project_runs s ! k"
  from assms(1,2) have k: "k < length (l_project_runs s)" and unstopped: "\<not> lp_stop ?r"
    and others: "\<forall>i. i < length (l_project_runs s) \<longrightarrow> i \<noteq> k \<longrightarrow>
        lp_stop (l_project_runs s ! i)"
    unfolding legacy_project_inv_def legacy_project_pre_def by auto
  have none: "snd (legacy_poll_fired (l_now ?s1) (l_jobsStore ?s1) r) = []"
    if "r \<in> set (l_project_runs s)" for r
  proof (cases "lp_stop r")
    case True
    then show ?thesis
      using legacy_poll_fired_latest [of _ "l_now ?s1" "l_jobsStore ?s1" r]
      by (cases "snd (legacy_poll_fired (l_now ?s1) (l_jobsStore ?s1) r)") auto
  next
    case False
    from that obtain i where i: "i < length (l_project_runs s)" "l_project_runs s ! i = r"
      by (auto simp: in_set_conv_nth)
    with False others have "i = k" by blast
    with i assms(4) have "l_jobsStore s (lp_jobId r) = None" by simp
    then show ?thesis
      by (simp add: legacy_poll_fired_def legacy_resolve_def split: ProjectPhase.splits)
  qed
  then have vs: "concat (map (\<lambda>r. snd (legacy_poll_fired (l_now ?s1) (l_jobsStore ?s1) r))
      (l_project_runs ?s1)) = []"
    by simp
  have ph: "\<exists>dl'. lp_phase (fst (legacy_poll_fired (l_now ?s1) (l_jobsStore ?s1) ?r)) = Polling dl'"
    using assms(3,4) unstopped
    by (simp add: legacy_poll_fired_def legacy_resolve_def)
  have st: "legacy_step s LTick = Inr (legacy_project_timers ?s1)" by simp
  show ?thesis
    unfolding st legacy_project_timers_def vs
    using k ph assms(2) by (simp add: legacy_emit_all_eq legacy_poll_fired_fst)
qed

lemma legacy_poll_absent_ticks:
  assumes "legacy_project_inv s" "l_project_cleanup s = Some k"
    "lp_phase (l_project_runs s ! k) = Polling dl"
    "l_jobsStore s (lp_jobId (l_project_runs s ! k)) = None"
  shows "\<exists>s'. legacy_run s (replicate n LTick) = Inr s' \<and> l_project_cleanup s' = Some k \<and>
         (\<exists>dl'. lp_phase (l_project_runs s' ! k) = Polling dl') \<and>
         l_emitted s' = l_emitted s \<and> l_results s' = l_results s"
  using assms
proof (induction n arbitrary: s dl)
  case 0
  then show ?case by simp
next
  case (Suc n)
  from legacy_poll_absent_tick [OF Suc.prems]
  obtain s1 dl' where s1: "legacy_step s LTick = Inr s1" "l_project_cleanup s1 = Some k"
      "lp_phase (l_project_runs s1 ! k) = Polling dl'"
      "lp_jobId (l_project_runs s1 ! k) = lp_jobId (l_project_runs s ! k)"
      "l_jobsStore s1 = l_jobsStore s" "l_emitted s1 = l_emitted s" "l_results s1 = l_results s"
    by blast
  have inv1: "legacy_project_inv s1"
    using Suc.prems(1) s1(1) by (rule legacy_project_inv_step)
  have abs1: "l_jobsStore s1 (lp_jobId (l_project_runs s1 ! k)) = None"
    using s1(4,5) Suc.prems(4) by simp
  from Suc.IH [OF inv1 s1(2,3) abs1]
  obtain s' where "legacy_run s1 (replicate n LTick) = Inr s'" "l_project_cleanup s' = Some k"
      "\<exists>dl'. lp_phase (l_project_runs s' ! k) = Polling dl'"
      "l_emitted s' = l_emitted s1" "l_results s' = l_results s1"
    by blast
  moreover have "legacy_run s (replicate (Suc n) LTick) = legacy_run s1 (replicate n LTick)"
    using s1(1) by (simp del: legacy_step.simps)
  ultimately show ?case using s1(6,7) by simp
qed

text \<open>
  C5, as amended. The poll loop has no retry budget: for a published JobId whose record
  never becomes visible in the registry, the projector run is still polling, not
  stopped, after any number of time units, and emits nothing. Results stays what it
  was; no Failure value is surfaced. Both variants.
\<close>

theorem poll_loop_has_no_bound:
  "(s = run (initializeIo b tr d st jobs) es \<and> project_cleanup s = Some k \<and>
    p_phase (project_runs s ! k) = Polling dl \<and>
    jobsStore s (p_jobId (project_runs s ! k)) = None \<longrightarrow>
      project_cleanup (run s (replicate n Tick)) = Some k \<and>
      (\<exists>dl'. p_phase (project_runs (run s (replicate n Tick)) ! k) = Polling dl') \<and>
      emitted (run s (replicate n Tick)) = emitted s \<and>
      results (run s (replicate n Tick)) = results s) \<and>
   (legacy_run (legacy_initializeIo b' d' jobs') les = Inr ls \<and> l_project_cleanup ls = Some k' \<and>
    lp_phase (l_project_runs ls ! k') = Polling dl'' \<and>
    l_jobsStore ls (lp_jobId (l_project_runs ls ! k')) = None \<longrightarrow>
      (\<exists>ls'. legacy_run ls (replicate n LTick) = Inr ls' \<and> l_project_cleanup ls' = Some k' \<and>
            (\<exists>dl'. lp_phase (l_project_runs ls' ! k') = Polling dl') \<and>
            l_emitted ls' = l_emitted ls \<and> l_results ls' = l_results ls))"
proof -
  have a: "project_cleanup (run s (replicate n Tick)) = Some k \<and>
      (\<exists>dl'. p_phase (project_runs (run s (replicate n Tick)) ! k) = Polling dl') \<and>
      emitted (run s (replicate n Tick)) = emitted s \<and>
      results (run s (replicate n Tick)) = results s"
    if h: "s = run (initializeIo b tr d st jobs) es" "project_cleanup s = Some k"
      "p_phase (project_runs s ! k) = Polling dl"
      "jobsStore s (p_jobId (project_runs s ! k)) = None"
  proof -
    have "binding_inv s"
      unfolding h(1) by (rule binding_inv_run) (rule binding_inv_init)
    then have "project_inv s" by (simp add: binding_inv_def)
    from poll_absent_ticks [OF this h(2,3,4)] show ?thesis .
  qed
  have b: "\<exists>ls'. legacy_run ls (replicate n LTick) = Inr ls' \<and> l_project_cleanup ls' = Some k' \<and>
            (\<exists>dl'. lp_phase (l_project_runs ls' ! k') = Polling dl') \<and>
            l_emitted ls' = l_emitted ls \<and> l_results ls' = l_results ls"
    if h: "legacy_run (legacy_initializeIo b' d' jobs') les = Inr ls"
      "l_project_cleanup ls = Some k'" "lp_phase (l_project_runs ls ! k') = Polling dl''"
      "l_jobsStore ls (lp_jobId (l_project_runs ls ! k')) = None"
  proof -
    have "legacy_project_inv ls"
      using legacy_project_inv_init h(1) by (rule legacy_project_inv_run)
    from legacy_poll_absent_ticks [OF this h(2,3,4)] show ?thesis .
  qed
  from a b show ?thesis by blast
qed

theorem poll_loop_has_no_bound_witness:
  "p_phase (project_runs (run ready_binding (replicate 200 Tick @ [Resolved 0 7 ()])) ! 0) =
     Polling 400 \<and>
   p_phase (project_runs (run ready_binding
      (replicate 200 Tick @ [Resolved 0 7 ()] @ replicate 400 Tick)) ! 0) = Polling 800 \<and>
   results (run (run ready_binding (replicate 200 Tick @ [Resolved 0 7 ()]))
      (replicate 400 Tick)) = placeholder"
proof -
  let ?es = "replicate 200 Tick @ [Resolved 0 7 ()]"
  let ?s = "run ready_binding ?es"
  have a: "project_cleanup ?s = Some 0 \<and> p_phase (project_runs ?s ! 0) = Polling 400 \<and>
      jobsStore ?s (p_jobId (project_runs ?s ! 0)) = None \<and> results ?s = placeholder"
    by code_simp
  have b: "p_phase (project_runs (run ready_binding (?es @ replicate 400 Tick)) ! 0) =
      Polling 800"
    by code_simp
  have s: "?s = run (initializeIo True (\<lambda>_. True) (Sample 0) (Some ''Succeeded'') Map.empty) ?es"
    by (simp add: ready_binding_def)
  from poll_loop_has_no_bound [THEN conjunct1, rule_format, of ?s True "\<lambda>_. True" "Sample 0"
      "Some ''Succeeded''" Map.empty ?es 0 400 400] a s
  have "results (run ?s (replicate 400 Tick)) = results ?s"
    by blast
  with a b show ?thesis by simp
qed

text \<open>
  C5 as stated fails: job 7 is published and never appears in the registry; after any
  number of time units the run is still polling and Results is still the placeholder.
\<close>

theorem poll_loop_counterexample:
  "\<forall>n. (\<exists>dl. p_phase (project_runs (run (run ready_binding
             (replicate 200 Tick @ [Resolved 0 7 ()])) (replicate n Tick)) ! 0) = Polling dl) \<and>
       results (run (run ready_binding (replicate 200 Tick @ [Resolved 0 7 ()]))
             (replicate n Tick)) = placeholder \<and>
       validation (results (run (run ready_binding (replicate 200 Tick @ [Resolved 0 7 ()]))
             (replicate n Tick))) = None"
proof
  fix n
  let ?s = "run ready_binding (replicate 200 Tick @ [Resolved 0 7 ()])"
  have a: "project_cleanup ?s = Some 0" "p_phase (project_runs ?s ! 0) = Polling 400"
      "jobsStore ?s (p_jobId (project_runs ?s ! 0)) = None" "results ?s = placeholder"
    by code_simp+
  have "project_inv ?s"
    unfolding ready_binding_def by (rule project_inv_run) (rule project_inv_init)
  from poll_absent_ticks [OF this a(1,2,3), of n] a(4)
  show "(\<exists>dl. p_phase (project_runs (run ?s (replicate n Tick)) ! 0) = Polling dl) \<and>
       results (run ?s (replicate n Tick)) = placeholder \<and>
       validation (results (run ?s (replicate n Tick))) = None"
    by (simp add: placeholder_def)
qed

section \<open>The claims on debouncing and readiness\<close>

lemma filter_single:
  assumes "k < length xs" "\<forall>i. i < length xs \<longrightarrow> i \<noteq> k \<longrightarrow> \<not> P (xs ! i)"
  shows "filter P xs = (if P (xs ! k) then [xs ! k] else [])"
proof -
  have "filter P xs = concat (map (\<lambda>x. if P x then [x] else []) xs)"
    by (induction xs) auto
  also have "\<dots> = (if P (xs ! k) then [xs ! k] else [])"
    using assms by (subst concat_map_single [where k = k]) auto
  finally show ?thesis .
qed

lemma filter_none:
  assumes "\<forall>i. i < length xs \<longrightarrow> \<not> P (xs ! i)"
  shows "filter P xs = []"
  using assms by (auto simp: filter_empty_conv in_set_conv_nth)

lemma dispatch_sync_armed:
  assumes "dispatch_inv s" "ready s"
  shows "armed (dispatch_sync s) (input_store s) (now s + quiet_period)"
proof -
  have "dispatch_inv (dispatch_sync (s\<lparr>input_store := input_store s\<rparr>))"
    using assms(1) by (rule dispatch_inv_sync_input)
  then have inv: "dispatch_inv (dispatch_sync s)" by simp
  have "dispatch_cleanup (dispatch_sync s) = Some (length (dispatch_runs (dispatch_stop s))) \<and>
        dispatch_runs (dispatch_sync s) ! length (dispatch_runs (dispatch_stop s)) =
          \<lparr>run_input = input_store s, stop = False, phase = Debouncing (now s + quiet_period)\<rparr>"
    using assms(2)
    by (auto simp: dispatch_sync_def dispatch_callback_def dispatch_stop_def ready_def
          split: option.splits)
  with inv show ?thesis unfolding armed_def by blast
qed

lemma tick_submissions:
  "submissions (step s Tick) =
     submissions s @
       map run_input (filter (\<lambda>r. timer_due (now s + 1) r \<and> \<not> stop r) (dispatch_runs s))"
  by (simp add: dispatch_timers_def)

lemma tick_frame [simp]:
  "now (step s Tick) = now s + 1"
  "browser (step s Tick) = browser s"
  "compilationStatusStore (step s Tick) = compilationStatusStore s"
  "input_store (step s Tick) = input_store s"
  "dispatch_cleanup (step s Tick) = dispatch_cleanup s"
  by simp_all

lemma tick_dispatch_runs:
  "dispatch_runs (step s Tick) = map (timer_fired (now s + 1)) (dispatch_runs s)"
  by (simp add: dispatch_timers_def)

lemma armed_tick_quiet:
  assumes "armed s v d" "now s + 1 < d"
  shows "armed (step s Tick) v d \<and> submissions (step s Tick) = submissions s"
proof -
  from assms(1) obtain g where inv: "dispatch_inv s" and g: "dispatch_cleanup s = Some g"
    and r: "dispatch_runs s ! g = \<lparr>run_input = v, stop = False, phase = Debouncing d\<rparr>"
    unfolding armed_def by blast
  from inv g have len: "g < length (dispatch_runs s)"
    and others: "\<forall>i. i < length (dispatch_runs s) \<longrightarrow> i \<noteq> g \<longrightarrow> stop (dispatch_runs s ! i)"
    unfolding dispatch_inv_def by auto
  let ?P = "\<lambda>r. timer_due (now s + 1) r \<and> \<not> stop r"
  have "\<not> ?P (dispatch_runs s ! g)" using r assms(2) by (simp add: timer_due_def)
  with others have "\<forall>i. i < length (dispatch_runs s) \<longrightarrow> \<not> ?P (dispatch_runs s ! i)"
    by metis
  then have "filter ?P (dispatch_runs s) = []" by (rule filter_none)
  then have sub: "submissions (step s Tick) = submissions s"
    by (simp add: tick_submissions del: step.simps)
  have "dispatch_runs (step s Tick) ! g = dispatch_runs s ! g"
    using len r assms(2) by (simp add: tick_dispatch_runs timer_fired_def timer_due_def del: step.simps)
  moreover have "dispatch_inv (step s Tick)" using inv by (rule dispatch_inv_step)
  ultimately have "armed (step s Tick) v d"
    unfolding armed_def using g r by (simp del: step.simps)
  with sub show ?thesis by blast
qed

lemma armed_tick_due:
  assumes "armed s v d" "d \<le> now s + 1"
  shows "submissions (step s Tick) = submissions s @ [v]"
proof -
  from assms(1) obtain g where inv: "dispatch_inv s" and g: "dispatch_cleanup s = Some g"
    and r: "dispatch_runs s ! g = \<lparr>run_input = v, stop = False, phase = Debouncing d\<rparr>"
    unfolding armed_def by blast
  from inv g have len: "g < length (dispatch_runs s)"
    and others: "\<forall>i. i < length (dispatch_runs s) \<longrightarrow> i \<noteq> g \<longrightarrow> stop (dispatch_runs s ! i)"
    unfolding dispatch_inv_def by auto
  let ?P = "\<lambda>r. timer_due (now s + 1) r \<and> \<not> stop r"
  have "?P (dispatch_runs s ! g)" using r assms(2) by (simp add: timer_due_def)
  moreover have "\<forall>i. i < length (dispatch_runs s) \<longrightarrow> i \<noteq> g \<longrightarrow> \<not> ?P (dispatch_runs s ! i)"
    using others by blast
  ultimately have "filter ?P (dispatch_runs s) = [dispatch_runs s ! g]"
    using filter_single [OF len, of ?P] by simp
  then show ?thesis using r by (simp add: tick_submissions del: step.simps)
qed

lemma armed_ticks_quiet:
  assumes "armed s v d" "now s + n < d"
  shows "armed (run s (replicate n Tick)) v d \<and>
         submissions (run s (replicate n Tick)) = submissions s \<and>
         now (run s (replicate n Tick)) = now s + n \<and>
         ready (run s (replicate n Tick)) = ready s \<and>
         input_store (run s (replicate n Tick)) = input_store s"
  using assms
proof (induction n arbitrary: s)
  case 0
  then show ?case by (simp add: run_def)
next
  case (Suc n)
  from Suc.prems have q: "now s + 1 < d" by simp
  note t = armed_tick_quiet [OF Suc.prems(1) q]
  have "now (step s Tick) + n < d" using Suc.prems(2) by (simp del: step.simps)
  from Suc.IH [OF t [THEN conjunct1] this] t
  show ?case
    unfolding run_ticks_Suc by (simp add: ready_def del: step.simps)
qed

lemma run_ticks_snoc: "run s (replicate (Suc n) Tick) = step (run s (replicate n Tick)) Tick"
proof -
  have "replicate (Suc n) Tick = replicate n Tick @ [Tick :: ('a, 'b, 'c) Event]"
    by (simp add: replicate_append_same)
  then show ?thesis
    by (simp only: run_def foldl_append foldl.simps)
qed

lemma armed_fires:
  assumes "armed s v (now s + quiet_period)"
  shows "submissions (run s (replicate quiet_period Tick)) = submissions s @ [v] \<and>
         (\<forall>n < quiet_period. submissions (run s (replicate n Tick)) = submissions s)"
proof -
  have qp: "quiet_period = Suc 199" by (simp add: quiet_period_def)
  have a: "armed (run s (replicate 199 Tick)) v (now s + quiet_period) \<and>
         submissions (run s (replicate 199 Tick)) = submissions s \<and>
         now (run s (replicate 199 Tick)) = now s + 199"
    using armed_ticks_quiet [OF assms, of 199] by (simp add: quiet_period_def)
  have "run s (replicate quiet_period Tick) = step (run s (replicate 199 Tick)) Tick"
    unfolding qp by (rule run_ticks_snoc)
  moreover have "submissions (step (run s (replicate 199 Tick)) Tick) =
      submissions (run s (replicate 199 Tick)) @ [v]"
    using a by (intro armed_tick_due [where d = "now s + quiet_period"])
       (simp_all add: quiet_period_def)
  ultimately have "submissions (run s (replicate quiet_period Tick)) = submissions s @ [v]"
    using a by simp
  moreover have "\<forall>n < quiet_period. submissions (run s (replicate n Tick)) = submissions s"
    using armed_ticks_quiet [OF assms] by simp
  ultimately show ?thesis by blast
qed

lemma write_arms:
  assumes "dispatch_inv s" "ready s"
  shows "armed (step s (InputSet v)) v (now s + quiet_period) \<and>
         submissions (step s (InputSet v)) = submissions s \<and>
         now (step s (InputSet v)) = now s \<and> ready (step s (InputSet v))"
proof -
  let ?s = "s\<lparr>input_store := v\<rparr>"
  have "dispatch_inv ?s" using assms(1) by (simp add: dispatch_inv_frame [of ?s s])
  moreover have "ready ?s" using assms(2) by (simp add: ready_def)
  ultimately have "armed (dispatch_sync ?s) (input_store ?s) (now ?s + quiet_period)"
    by (rule dispatch_sync_armed)
  then show ?thesis using assms(2) by (simp add: ready_def)
qed

lemma armed_inv: "armed s v d \<Longrightarrow> dispatch_inv s"
  by (simp add: armed_def)

lemma burst_quiet:
  assumes "dispatch_inv s" "ready s" "\<forall>w \<in> set ws. snd w < quiet_period"
  shows "dispatch_inv (run s (burst ws)) \<and> ready (run s (burst ws)) \<and>
         submissions (run s (burst ws)) = submissions s"
  using assms
proof (induction ws arbitrary: s)
  case Nil
  then show ?case by (simp add: run_def)
next
  case (Cons w ws)
  obtain v n where w: "w = (v, n)" by (cases w)
  with Cons.prems(3) have n: "n < quiet_period" by simp
  let ?s1 = "step s (InputSet v)"
  note a = write_arms [OF Cons.prems(1,2), of v]
  from a have arm: "armed ?s1 v (now ?s1 + quiet_period)" by simp
  have "now ?s1 + n < now ?s1 + quiet_period" using n by simp
  note b = armed_ticks_quiet [OF arm this]
  let ?s2 = "run ?s1 (replicate n Tick)"
  have inv2: "dispatch_inv ?s2" by (rule armed_inv) (rule b [THEN conjunct1])
  have rdy2: "ready ?s2" using a b by blast
  have rest: "\<forall>w \<in> set ws. snd w < quiet_period" using Cons.prems(3) by simp
  have "run s (burst (w # ws)) = run ?s2 (burst ws)"
    by (simp add: w run_def del: step.simps)
  with Cons.IH [OF inv2 rdy2 rest] a b show ?case by simp
qed

lemma burst_append: "burst (ws @ ws') = burst ws @ burst ws'"
  by (induction ws) auto

lemma burst_submits_last:
  assumes "dispatch_inv s" "ready s" "\<forall>w \<in> set ws. snd w < quiet_period"
  shows "submissions (run s (burst (ws @ [(v, quiet_period)]))) = submissions s @ [v]"
proof -
  let ?s1 = "run s (burst ws)"
  note q = burst_quiet [OF assms]
  from q have inv1: "dispatch_inv ?s1" and rdy1: "ready ?s1" by blast+
  note a = write_arms [OF inv1 rdy1, of v]
  let ?s2 = "step ?s1 (InputSet v)"
  from a have "armed ?s2 v (now ?s2 + quiet_period)" by simp
  from armed_fires [OF this] a q
  have "submissions (run ?s2 (replicate quiet_period Tick)) = submissions s @ [v]"
    by simp
  moreover have "run s (burst (ws @ [(v, quiet_period)])) = run ?s2 (replicate quiet_period Tick)"
    by (simp add: burst_append run_def del: step.simps)
  ultimately show ?thesis by simp
qed

lemma resolved_submissions [simp]: "submissions (resolved g j m s) = submissions s"
  by (simp add: resolved_def)

lemma not_ready_step:
  assumes "dispatch_inv s" "compilationStatusStore s \<noteq> Some ''Succeeded''"
  shows "submissions (step s e) = submissions s"
proof (cases e)
  case Tick
  from assms have "dispatch_cleanup s = None"
    unfolding dispatch_inv_def by (cases "dispatch_cleanup s") auto
  with assms(1) have "\<forall>i. i < length (dispatch_runs s) \<longrightarrow> stop (dispatch_runs s ! i)"
    unfolding dispatch_inv_def by simp
  then have "filter (\<lambda>r. timer_due (now s + 1) r \<and> \<not> stop r) (dispatch_runs s) = []"
    by (intro filter_none) simp
  then show ?thesis using Tick by (simp add: tick_submissions del: step.simps)
qed simp_all

lemma not_ready_run:
  assumes "dispatch_inv s" "compilationStatusStore s \<noteq> Some ''Succeeded''"
    "\<forall>e \<in> set es. e \<noteq> StatusSet (Some ''Succeeded'')"
  shows "submissions (run s es) = submissions s"
  using assms
proof (induction es arbitrary: s)
  case Nil
  then show ?case by (simp add: run_def)
next
  case (Cons e es)
  have inv': "dispatch_inv (step s e)" using Cons.prems(1) by (rule dispatch_inv_step)
  have e: "e \<noteq> StatusSet (Some ''Succeeded'')" using Cons.prems(3) by simp
  have st': "compilationStatusStore (step s e) \<noteq> Some ''Succeeded''"
  proof (cases e)
    case (StatusSet st)
    with e have "st \<noteq> Some ''Succeeded''" by simp
    with StatusSet Cons.prems(2) show ?thesis by simp
  next
    case (Resolved g j m)
    then show ?thesis using Cons.prems(2) by (simp add: resolved_def)
  qed (use Cons.prems(2) in simp_all)
  have "submissions (run (step s e) es) = submissions (step s e)"
    using Cons.IH [OF inv' st'] Cons.prems(3) by simp
  moreover have "submissions (step s e) = submissions s"
    using Cons.prems(1,2) by (rule not_ready_step)
  ultimately show ?case by (simp add: run_def del: step.simps)
qed

lemma status_arms:
  assumes "dispatch_inv s" "browser s"
  shows "armed (step s (StatusSet (Some ''Succeeded''))) (input_store s) (now s + quiet_period) \<and>
         submissions (step s (StatusSet (Some ''Succeeded''))) = submissions s \<and>
         now (step s (StatusSet (Some ''Succeeded''))) = now s"
proof -
  let ?s = "s\<lparr>compilationStatusStore := Some ''Succeeded''\<rparr>"
  have "dispatch_inv (dispatch_sync ?s)" using assms(1) by (rule dispatch_inv_sync_status)
  have "dispatch_cleanup (dispatch_sync ?s) = Some (length (dispatch_runs (dispatch_stop ?s))) \<and>
        dispatch_runs (dispatch_sync ?s) ! length (dispatch_runs (dispatch_stop ?s)) =
          \<lparr>run_input = input_store s, stop = False, phase = Debouncing (now s + quiet_period)\<rparr>"
    using assms(2)
    by (auto simp: dispatch_sync_def dispatch_callback_def dispatch_stop_def
          split: option.splits)
  with \<open>dispatch_inv (dispatch_sync ?s)\<close>
  have "armed (dispatch_sync ?s) (input_store s) (now s + quiet_period)"
    unfolding armed_def by blast
  then show ?thesis by simp
qed

lemma reachable_dispatch_inv: "dispatch_inv (run (initializeIo b tr d st jobs) es)"
  by (rule dispatch_inv_run) (rule dispatch_inv_init)

text \<open>
  The debounce of io.ts. From any reachable state with the executor ready, a burst of
  writes, each but the last followed by fewer than 200 time units and the last by 200,
  issues exactly one submission, for the last-written Input: every write stops the
  pending run and starts a new timer.
\<close>

theorem burst_issues_one_submission:
  assumes "s = run (initializeIo b tr d st jobs) es"
    and "browser s" and "compilationStatusStore s = Some ''Succeeded''"
    and "\<forall>w \<in> set ws. snd w < quiet_period"
  shows "submissions (run s (burst (ws @ [(v, quiet_period)]))) = submissions s @ [v]"
proof -
  have "dispatch_inv s" unfolding assms(1) by (rule reachable_dispatch_inv)
  moreover have "ready s" using assms(2,3) by (simp add: ready_def)
  ultimately show ?thesis using assms(4) by (rule burst_submits_last)
qed

theorem burst_issues_one_submission_witness:
  "submissions (run ready_binding (replicate 200 Tick)) = [Sample 0] \<and>
   submissions (run (run ready_binding (replicate 200 Tick))
      (burst ([(Sample 1, 50), (Sample 2, 199)] @ [(Sample 3, quiet_period)]))) =
     [Sample 0, Sample 3]"
proof -
  let ?s = "run ready_binding (replicate 200 Tick)"
  have a: "submissions ?s = [Sample 0] \<and> browser ?s \<and> compilationStatusStore ?s = Some ''Succeeded''"
    by code_simp
  have b: "\<forall>w \<in> set [(Sample 1, 50::nat), (Sample 2, 199)]. snd w < quiet_period"
    by (simp add: quiet_period_def)
  from burst_issues_one_submission [of ?s True "\<lambda>_. True" "Sample 0" "Some ''Succeeded''" Map.empty
      "replicate 200 Tick" "[(Sample 1, 50), (Sample 2, 199)]" "Sample 3"] a b
  show ?thesis by (simp add: ready_binding_def)
qed

text \<open>
  C2 in the older variant: the request for \<open>Sample 0\<close> is in flight when \<open>Sample 1\<close> is
  written. The cleanup calls \<open>cancel\<close>, which reads \<open>jobId\<close> before line 51 gave it a
  value, and the ReferenceError leaves the derived store before the callback starts a
  timer for \<open>Sample 1\<close>: no submission is issued for it. io.ts on the same events submits
  \<open>Sample 0\<close> and then \<open>Sample 1\<close>.
\<close>

theorem legacy_write_during_request_throws:
  "(case legacy_run legacy_binding (replicate 200 LTick) of
      Inl err \<Rightarrow> False
    | Inr ls \<Rightarrow> l_submissions ls = [Sample 0] \<and> l_phase (l_dispatch_runs ls ! 0) = LRequesting \<and>
               l_dispatch_cleanup ls = Some 0) \<and>
   (case legacy_run legacy_binding (replicate 200 LTick @ [LInputSet (Sample 1)]) of
      Inl err \<Rightarrow> err = ReferenceError
    | Inr ls \<Rightarrow> False) \<and>
   (case legacy_run legacy_binding
           (replicate 200 LTick @ [LInputSet (Sample 1)] @ replicate 200 LTick) of
      Inl err \<Rightarrow> err = ReferenceError
    | Inr ls \<Rightarrow> False) \<and>
   submissions (run ready_binding (replicate 200 Tick @ [InputSet (Sample 1)] @ replicate 200 Tick)) =
     [Sample 0, Sample 1]"
  by code_simp

text \<open>
  The readiness check of io.ts. No submission is issued by any step taken in a state
  whose compilation status is not \<open>Succeeded\<close>, however often the Input is written; and
  when the status is set to \<open>Succeeded\<close> (in a browser), the current value of the Input
  cell is submitted exactly 200 time units later with no further write, and not before.
\<close>

theorem readiness_gates_submission:
  assumes "s = run (initializeIo b tr d st jobs) es"
  shows "(compilationStatusStore s \<noteq> Some ''Succeeded'' \<longrightarrow>
            submissions (step s e) = submissions s \<and>
            ((\<forall>e' \<in> set es'. e' \<noteq> StatusSet (Some ''Succeeded'')) \<longrightarrow>
               submissions (run s es') = submissions s)) \<and>
         (browser s \<longrightarrow>
            submissions (run s (StatusSet (Some ''Succeeded'') # replicate quiet_period Tick)) =
              submissions s @ [input_store s] \<and>
            (\<forall>n < quiet_period.
               submissions (run s (StatusSet (Some ''Succeeded'') # replicate n Tick)) =
                 submissions s))"
proof -
  have inv: "dispatch_inv s" unfolding assms by (rule reachable_dispatch_inv)
  have a: "submissions (step s e) = submissions s \<and>
            ((\<forall>e' \<in> set es'. e' \<noteq> StatusSet (Some ''Succeeded'')) \<longrightarrow>
               submissions (run s es') = submissions s)"
    if "compilationStatusStore s \<noteq> Some ''Succeeded''"
    using not_ready_step [OF inv that] not_ready_run [OF inv that] by blast
  have b: "submissions (run s (StatusSet (Some ''Succeeded'') # replicate quiet_period Tick)) =
              submissions s @ [input_store s] \<and>
            (\<forall>n < quiet_period.
               submissions (run s (StatusSet (Some ''Succeeded'') # replicate n Tick)) =
                 submissions s)"
    if "browser s"
  proof -
    let ?s1 = "step s (StatusSet (Some ''Succeeded''))"
    note arm = status_arms [OF inv that]
    then have "armed ?s1 (input_store s) (now ?s1 + quiet_period)" by simp
    from armed_fires [OF this] arm
    have "submissions (run ?s1 (replicate quiet_period Tick)) = submissions s @ [input_store s] \<and>
         (\<forall>n < quiet_period. submissions (run ?s1 (replicate n Tick)) = submissions s)"
      by simp
    moreover have "run s (StatusSet (Some ''Succeeded'') # replicate n Tick) =
        run ?s1 (replicate n Tick)" for n
      by (simp add: run_def del: step.simps)
    ultimately show ?thesis by simp
  qed
  from a b show ?thesis by blast
qed

theorem readiness_gates_submission_witness:
  "compilationStatusStore compiling_binding \<noteq> Some ''Succeeded'' \<and>
   submissions (run compiling_binding
      ([InputSet (Sample 1)] @ replicate 300 Tick @ [InputSet (Sample 2)] @ replicate 300 Tick)) = [] \<and>
   submissions (run (run compiling_binding [InputSet (Sample 1), InputSet (Sample 2)])
      (StatusSet (Some ''Succeeded'') # replicate quiet_period Tick)) = [Sample 2] \<and>
   submissions (run (run compiling_binding [InputSet (Sample 1), InputSet (Sample 2)])
      (StatusSet (Some ''Succeeded'') # replicate 199 Tick)) = []"
proof -
  let ?es = "[InputSet (Sample 1)] @ replicate 300 Tick @ [InputSet (Sample 2)] @ replicate 300 Tick"
  let ?s = "run compiling_binding [InputSet (Sample 1), InputSet (Sample 2)]"
  have c: "compiling_binding = run (initializeIo True (\<lambda>_. True) (Sample 0) (Some ''Compiling'') Map.empty) []"
    by (simp add: compiling_binding_def run_def)
  have a: "compilationStatusStore compiling_binding \<noteq> Some ''Succeeded'' \<and>
      submissions compiling_binding = []"
    by code_simp
  have "\<forall>e' \<in> set ?es. e' \<noteq> StatusSet (Some ''Succeeded'')"
    by auto
  with readiness_gates_submission [OF c, of _ ?es, THEN conjunct1] a
  have one: "submissions (run compiling_binding ?es) = []" by simp
  have s: "?s = run (initializeIo True (\<lambda>_. True) (Sample 0) (Some ''Compiling'') Map.empty) [InputSet (Sample 1), InputSet (Sample 2)]"
    by (simp add: compiling_binding_def)
  have b: "browser ?s \<and> input_store ?s = Sample 2 \<and> submissions ?s = []"
    by code_simp
  have q: "(199::nat) < quiet_period" by (simp add: quiet_period_def)
  from readiness_gates_submission [OF s, THEN conjunct2] b q
  have "submissions (run ?s (StatusSet (Some ''Succeeded'') # replicate quiet_period Tick)) = [Sample 2] \<and>
        submissions (run ?s (StatusSet (Some ''Succeeded'') # replicate 199 Tick)) = []"
    by simp
  with a one show ?thesis by blast
qed

text \<open>
  C6 in the older variant, which never reads the compilation status: with the compiler
  still compiling, io.ts submits nothing for a written Input, the older variant submits
  it after the quiet period.
\<close>

theorem legacy_submits_without_readiness:
  "submissions (run compiling_binding (InputSet (Sample 5) # replicate 200 Tick)) = [] \<and>
   (case legacy_run legacy_binding (LInputSet (Sample 5) # replicate 200 LTick) of
      Inl err \<Rightarrow> False
    | Inr ls \<Rightarrow> l_submissions ls = [Sample 5])"
  by code_simp

section \<open>The claim on the output states\<close>

text \<open>
  C10. Every Results value either variant passes to \<open>set\<close>, and every value the results
  store holds, has outputState \<open>None\<close> or \<open>Current\<close>: \<open>Stale\<close> is never produced. For
  io.ts this is over every event sequence from \<open>initializeIo\<close>; for the older variant
  over every event sequence that does not end in an uncaught exception.
\<close>

theorem outputState_never_Stale:
  "(\<forall>e \<in> set (emitted (run (initializeIo b tr d st jobs) es)).
       outputState (snd e) = NoneState \<or> outputState (snd e) = Current) \<and>
   (outputState (results (run (initializeIo b tr d st jobs) es)) = NoneState \<or>
    outputState (results (run (initializeIo b tr d st jobs) es)) = Current) \<and>
   (legacy_run (legacy_initializeIo b' d' jobs') les = Inr ls \<longrightarrow>
      (\<forall>v \<in> set (l_emitted ls). l_outputState v = NoneState \<or> l_outputState v = Current) \<and>
      (l_outputState (l_results ls) = NoneState \<or> l_outputState (l_results ls) = Current))"
proof -
  have neq: "\<And>x. x \<noteq> Stale \<longleftrightarrow> x = NoneState \<or> x = Current"
    by (case_tac x) simp_all
  have "never_stale (run (initializeIo b tr d st jobs) es)"
    by (rule never_stale_run) (rule never_stale_init)
  moreover have "legacy_run (legacy_initializeIo b' d' jobs') les = Inr ls \<Longrightarrow> legacy_never_stale ls"
    by (rule legacy_never_stale_run [OF legacy_never_stale_init])
  ultimately show ?thesis
    by (simp add: never_stale_def legacy_never_stale_def neq)
qed

theorem outputState_never_Stale_witness:
  "map (outputState \<circ> snd)
     (emitted (run ready_binding (replicate 200 Tick @ [JobPut 7 succeeded_job, Resolved 0 7 ()])))
     = [NoneState, Current] \<and>
   (outputState (snd (last (emitted (run ready_binding
       (replicate 200 Tick @ [JobPut 7 succeeded_job, Resolved 0 7 ()]))))) = NoneState \<or>
    outputState (snd (last (emitted (run ready_binding
       (replicate 200 Tick @ [JobPut 7 succeeded_job, Resolved 0 7 ()]))))) = Current) \<and>
   (\<exists>ls. legacy_run legacy_binding
            (replicate 200 LTick @ [LJobPut 7 succeeded_job, LResolved 0 7]) = Inr ls \<and>
         map l_outputState (l_emitted ls) = [NoneState, Current] \<and>
         (l_outputState (last (l_emitted ls)) = NoneState \<or>
          l_outputState (last (l_emitted ls)) = Current))"
proof -
  let ?es = "replicate 200 Tick @ [JobPut 7 succeeded_job, Resolved 0 7 ()]"
  let ?les = "replicate 200 LTick @ [LJobPut 7 succeeded_job, LResolved 0 7]"
  have a: "map (outputState \<circ> snd) (emitted (run ready_binding ?es)) = [NoneState, Current]"
    by code_simp
  have b: "case legacy_run legacy_binding ?les of
             Inl err \<Rightarrow> False
           | Inr ls \<Rightarrow> map l_outputState (l_emitted ls) = [NoneState, Current]"
    by code_simp
  then obtain ls where ls: "legacy_run legacy_binding ?les = Inr ls"
      "map l_outputState (l_emitted ls) = [NoneState, Current]"
    by (auto split: sum.splits)
  have "emitted (run ready_binding ?es) \<noteq> []" using a by auto
  then have a': "last (emitted (run ready_binding ?es)) \<in> set (emitted (run ready_binding ?es))"
    by simp
  have "l_emitted ls \<noteq> []" using ls(2) by auto
  then have b': "last (l_emitted ls) \<in> set (l_emitted ls)" by simp
  have c: "\<forall>e \<in> set (emitted (run ready_binding ?es)).
       outputState (snd e) = NoneState \<or> outputState (snd e) = Current"
    unfolding ready_binding_def
    by (rule outputState_never_Stale [THEN conjunct1])
  have d: "\<forall>v \<in> set (l_emitted ls). l_outputState v = NoneState \<or> l_outputState v = Current"
    by (rule outputState_never_Stale [THEN conjunct2, THEN conjunct2, THEN mp,
          OF ls(1) [unfolded legacy_binding_def], THEN conjunct1])
  show ?thesis
    by (intro conjI exI [of _ ls] a ls c [rule_format, OF a'] d [rule_format, OF b'])
qed

end
